theory Spec2Isabelle
  imports Main
begin

section \<open>BadgerDB buffer manager (buffer.cpp): data model\<close>

text \<open>
  The development follows the complete variant of \<^verbatim>\<open>buffer.cpp\<close> (the one whose
  \<^verbatim>\<open>allocBuf\<close> is a \<^verbatim>\<open>for\<close> loop bounded by \<^verbatim>\<open>2*numBufs\<close> and whose
  \<^verbatim>\<open>readPage\<close> and \<^verbatim>\<open>allocPage\<close> have bodies). C++ exceptions are values of
  \<open>error\<close>; a call that can throw returns \<open>(error + 'a) \<times> BufMgr\<close>, the state being the one
  the exception leaves behind. A \<^verbatim>\<open>Page*\<close> into \<^verbatim>\<open>bufPool\<close> is the index of the frame.
\<close>

type_synonym File = string
type_synonym PageId = nat
type_synonym FrameId = nat

record Page =
  page_number :: PageId
  contents :: string

datatype error =
    HashNotFound | HashAlreadyPresent | BufferExceeded
  | PageNotPinned | PagePinned | BadBuffer | InvalidPage

text \<open>Calls made to the file collaborator, in the order they are made.\<close>

datatype io_event =
    WritePage File Page | ReadPage File PageId
  | AllocatePage File PageId | DeletePage File PageId

text \<open>
  Modelled from the spec: the frame descriptor of \<^verbatim>\<open>buffer.h\<close>, which is not among the
  sources. Its fields are the ones \<^verbatim>\<open>buffer.cpp\<close> reads and writes; the owner is optional
  (absent for an unoccupied frame) and the pin count is a non-negative integer.
\<close>

record BufDesc =
  file' :: "File option"
  pageNo :: PageId
  frameNo :: FrameId
  pinCnt :: nat
  dirty :: bool
  valid :: bool
  refbit :: bool

text \<open>
  The manager, together with the state of its collaborators: \<open>disk\<close> is what the files
  hold, \<open>io\<close> the calls made to them so far.
\<close>

record BufMgr =
  numBufs :: nat
  clockHand :: FrameId
  hashTable :: "File \<times> PageId \<rightharpoonup> FrameId"
  bufDescTable :: "BufDesc list"
  bufPool :: "Page list"
  disk :: "File \<Rightarrow> PageId \<rightharpoonup> Page"
  io :: "io_event list"

text \<open>Arithmetic on \<^verbatim>\<open>std::uint32_t\<close> wraps modulo \<open>2^32\<close>.\<close>

definition u32 :: "nat \<Rightarrow> nat" where
  "u32 n = n mod 4294967296"

subsection \<open>Frame descriptor helpers\<close>

text \<open>
  Modelled from the spec: \<^verbatim>\<open>BufDesc::Set\<close> (markOccupied) sets occupied, the owner,
  pin count 1, referenced, not dirty.
\<close>

definition Set_desc :: "File \<Rightarrow> PageId \<Rightarrow> BufDesc \<Rightarrow> BufDesc" where
  "Set_desc f pgNo d =
     d\<lparr>file' := Some f, pageNo := pgNo, pinCnt := 1, dirty := False, valid := True, refbit := True\<rparr>"

text \<open>
  Modelled from the spec: \<^verbatim>\<open>BufDesc::clear\<close> resets all fields to the unoccupied
  baseline (the frame keeps its number).
\<close>

definition clear :: "BufDesc \<Rightarrow> BufDesc" where
  "clear d =
     d\<lparr>file' := None, pageNo := 0, pinCnt := 0, dirty := False, valid := False, refbit := False\<rparr>"

subsection \<open>Page directory\<close>

text \<open>
  Modelled from the spec: \<^verbatim>\<open>BufHashTbl\<close> is not among the sources. \<open>lookup\<close> fails with
  NotFound if the key is absent, \<open>insert\<close> fails if the key is already mapped, \<open>remove\<close>
  fails with NotFound if the key is absent.
\<close>

definition hashTable_lookup :: "File \<Rightarrow> PageId \<Rightarrow> BufMgr \<Rightarrow> error + FrameId" where
  "hashTable_lookup f pgNo s =
     (case hashTable s (f, pgNo) of None \<Rightarrow> Inl HashNotFound | Some fr \<Rightarrow> Inr fr)"

definition hashTable_insert :: "File \<Rightarrow> PageId \<Rightarrow> FrameId \<Rightarrow> BufMgr \<Rightarrow> error + BufMgr" where
  "hashTable_insert f pgNo fr s =
     (case hashTable s (f, pgNo) of
        Some _ \<Rightarrow> Inl HashAlreadyPresent
      | None \<Rightarrow> Inr (s\<lparr>hashTable := (hashTable s)((f, pgNo) \<mapsto> fr)\<rparr>))"

definition hashTable_remove :: "File \<Rightarrow> PageId \<Rightarrow> BufMgr \<Rightarrow> error + BufMgr" where
  "hashTable_remove f pgNo s =
     (case hashTable s (f, pgNo) of
        None \<Rightarrow> Inl HashNotFound
      | Some _ \<Rightarrow> Inr (s\<lparr>hashTable := (hashTable s)((f, pgNo) := None)\<rparr>))"

subsection \<open>File collaborator\<close>

text \<open>
  Modelled from the spec: \<^verbatim>\<open>File\<close> and \<^verbatim>\<open>Page\<close> are not among the sources.
  \<open>readPage\<close> fails if the page does not exist in the file; \<open>writePage\<close> overwrites the
  stored page (a page carries its own number); \<open>deletePage\<close> removes the page from the
  file's storage; \<open>allocatePage\<close> assigns a new identifier and initial content: the page
  the file hands out is a parameter of the model.
\<close>

definition file_readPage :: "File \<Rightarrow> PageId \<Rightarrow> BufMgr \<Rightarrow> (error + Page) \<times> BufMgr" where
  "file_readPage f pgNo s =
     (case disk s f pgNo of
        None \<Rightarrow> (Inl InvalidPage, s)
      | Some pg \<Rightarrow> (Inr pg, s\<lparr>io := io s @ [ReadPage f pgNo]\<rparr>))"

definition file_writePage :: "File \<Rightarrow> Page \<Rightarrow> BufMgr \<Rightarrow> BufMgr" where
  "file_writePage f pg s =
     s\<lparr>disk := (disk s)(f := (disk s f)(page_number pg \<mapsto> pg)),
       io := io s @ [WritePage f pg]\<rparr>"

definition file_deletePage :: "File \<Rightarrow> PageId \<Rightarrow> BufMgr \<Rightarrow> BufMgr" where
  "file_deletePage f pgNo s =
     s\<lparr>disk := (disk s)(f := (disk s f)(pgNo := None)),
       io := io s @ [DeletePage f pgNo]\<rparr>"

definition file_allocatePage :: "File \<Rightarrow> Page \<Rightarrow> BufMgr \<Rightarrow> BufMgr" where
  "file_allocatePage f newPage s =
     s\<lparr>disk := (disk s)(f := (disk s f)(page_number newPage \<mapsto> newPage)),
       io := io s @ [AllocatePage f (page_number newPage)]\<rparr>"

text \<open>
  \<^verbatim>\<open>bufDescTable[i].file.writePage(page)\<close>: the write goes to the file the descriptor
  names. A descriptor without owner has no file to write to.
\<close>

definition desc_file_writePage :: "BufDesc \<Rightarrow> Page \<Rightarrow> BufMgr \<Rightarrow> BufMgr" where
  "desc_file_writePage d pg s =
     (case file' d of None \<Rightarrow> s | Some f \<Rightarrow> file_writePage f pg s)"

section \<open>The buffer manager\<close>

subsection \<open>Constructor\<close>

definition BufDesc_default :: BufDesc where
  "BufDesc_default =
     \<lparr>file' = None, pageNo = 0, frameNo = 0, pinCnt = 0,
      dirty = False, valid = False, refbit = False\<rparr>"

definition Page_default :: Page where
  "Page_default = \<lparr>page_number = 0, contents = []\<rparr>"

text \<open>
  \<^verbatim>\<open>BufMgr::BufMgr(bufs)\<close>: every descriptor gets its frame number and \<open>valid = false\<close>,
  the directory is empty, and \<^verbatim>\<open>clockHand = bufs - 1\<close> in 32-bit unsigned arithmetic.
  The files' content at construction is a parameter.
\<close>

definition BufMgr_new :: "nat \<Rightarrow> (File \<Rightarrow> PageId \<rightharpoonup> Page) \<Rightarrow> BufMgr" where
  "BufMgr_new bufs dsk =
     \<lparr>numBufs = bufs,
      clockHand = u32 (bufs + 4294967295),
      hashTable = Map.empty,
      bufDescTable = map (\<lambda>i. BufDesc_default\<lparr>frameNo := i, valid := False\<rparr>) [0..<bufs],
      bufPool = replicate bufs Page_default,
      disk = dsk,
      io = []\<rparr>"

subsection \<open>advanceClock and allocBuf\<close>

definition advanceClock :: "BufMgr \<Rightarrow> BufMgr" where
  "advanceClock s = s\<lparr>clockHand := u32 (clockHand s + 1) mod numBufs s\<rparr>"

text \<open>
  One iteration of the loop of \<^verbatim>\<open>allocBuf\<close>: \<open>Some frame\<close> when the iteration assigns
  \<^verbatim>\<open>frame = clockHand\<close> and returns, \<open>None\<close> when it falls through to the next one.
\<close>

definition allocBuf_visit :: "BufMgr \<Rightarrow> FrameId option \<times> BufMgr" where
  "allocBuf_visit s0 =
     (let s = advanceClock s0;
          h = clockHand s;
          d = bufDescTable s ! h
      in if \<not> valid d then (Some h, s)
         else if refbit d then
           (None, s\<lparr>bufDescTable := (bufDescTable s)[h := d\<lparr>refbit := False\<rparr>]\<rparr>)
         else if pinCnt d = 0 then
           (Some h, if dirty d then desc_file_writePage d (bufPool s ! h) s else s)
         else (None, s))"

text \<open>
  \<^verbatim>\<open>for (uint32_t i = 0; i < 2*numBufs; i++)\<close>: the first argument is the number of
  iterations left; when none is left the function throws.
\<close>

fun allocBuf_loop :: "nat \<Rightarrow> BufMgr \<Rightarrow> (error + FrameId) \<times> BufMgr" where
  "allocBuf_loop 0 s = (Inl BufferExceeded, s)"
| "allocBuf_loop (Suc n) s =
     (case allocBuf_visit s of
        (Some frame, s') \<Rightarrow> (Inr frame, s')
      | (None, s') \<Rightarrow> allocBuf_loop n s')"

definition allocBuf :: "BufMgr \<Rightarrow> (error + FrameId) \<times> BufMgr" where
  "allocBuf s = allocBuf_loop (u32 (2 * numBufs s)) s"

subsection \<open>readPage, unPinPage, allocPage\<close>

definition readPage :: "File \<Rightarrow> PageId \<Rightarrow> BufMgr \<Rightarrow> (error + FrameId) \<times> BufMgr" where
  "readPage f pgNo s =
     (case hashTable_lookup f pgNo s of
        Inr frameId \<Rightarrow>
          (let d = bufDescTable s ! frameId;
               d1 = d\<lparr>refbit := True\<rparr>;
               d2 = d1\<lparr>pinCnt := pinCnt d1 + 1\<rparr>
           in (Inr frameId, s\<lparr>bufDescTable := (bufDescTable s)[frameId := d2]\<rparr>))
      | Inl e \<Rightarrow>
          if e \<noteq> HashNotFound then (Inl e, s)
          else
            (case allocBuf s of
               (Inl e1, s1) \<Rightarrow> (Inl e1, s1)
             | (Inr frameId, s1) \<Rightarrow>
                 (case file_readPage f pgNo s1 of
                    (Inl e2, s2) \<Rightarrow> (Inl e2, s2)
                  | (Inr newPage, s2) \<Rightarrow>
                      (case hashTable_insert f pgNo frameId s2 of
                         Inl e3 \<Rightarrow> (Inl e3, s2)
                       | Inr s3 \<Rightarrow>
                           (Inr frameId,
                            s3\<lparr>bufDescTable :=
                                 (bufDescTable s3)[frameId := Set_desc f pgNo (bufDescTable s3 ! frameId)],
                               bufPool := (bufPool s3)[frameId := newPage]\<rparr>)))))"

definition unPinPage :: "File \<Rightarrow> PageId \<Rightarrow> bool \<Rightarrow> BufMgr \<Rightarrow> (error + unit) \<times> BufMgr" where
  "unPinPage f pgNo isDirty s =
     (case hashTable_lookup f pgNo s of
        Inr fr \<Rightarrow>
          (let d = bufDescTable s ! fr
           in if pinCnt d = 0 then (Inl PageNotPinned, s)
              else
                (let d1 = d\<lparr>pinCnt := pinCnt d - 1\<rparr>;
                     d2 = (if isDirty then d1\<lparr>dirty := True\<rparr> else d1)
                 in (Inr (), s\<lparr>bufDescTable := (bufDescTable s)[fr := d2]\<rparr>)))
      | Inl e \<Rightarrow> if e = HashNotFound then (Inr (), s) else (Inl e, s))"

text \<open>
  \<^verbatim>\<open>allocPage\<close> returns the new page number and the handle of the frame. \<open>newPage\<close>
  is the page \<^verbatim>\<open>file.allocatePage()\<close> hands out.
\<close>

definition allocPage :: "File \<Rightarrow> Page \<Rightarrow> BufMgr \<Rightarrow> (error + PageId \<times> FrameId) \<times> BufMgr" where
  "allocPage f newPage s =
     (let s0 = file_allocatePage f newPage s
      in case allocBuf s0 of
           (Inl e1, s1) \<Rightarrow> (Inl e1, s1)
         | (Inr frameId, s1) \<Rightarrow>
             (case hashTable_insert f (page_number newPage) frameId s1 of
                Inl e2 \<Rightarrow> (Inl e2, s1)
              | Inr s2 \<Rightarrow>
                  (Inr (page_number newPage, frameId),
                   s2\<lparr>bufDescTable :=
                        (bufDescTable s2)[frameId :=
                           Set_desc f (page_number newPage) (bufDescTable s2 ! frameId)],
                      bufPool := (bufPool s2)[frameId := newPage]\<rparr>)))"

subsection \<open>flushFile and disposePage\<close>

text \<open>The body of the loop of \<^verbatim>\<open>flushFile\<close>, for one frame.\<close>

definition flushFile_frame :: "File \<Rightarrow> FrameId \<Rightarrow> BufMgr \<Rightarrow> (error + unit) \<times> BufMgr" where
  "flushFile_frame f frame s =
     (let d = bufDescTable s ! frame
      in if file' d = Some f then
           if pinCnt d > 0 then (Inl PagePinned, s)
           else if \<not> valid d then (Inl BadBuffer, s)
           else
             (let s1 = (if dirty d then
                          (desc_file_writePage d (bufPool s ! frame) s)
                            \<lparr>bufDescTable := (bufDescTable s)[frame := d\<lparr>dirty := False\<rparr>]\<rparr>
                        else s)
              in case hashTable_remove f (pageNo (bufDescTable s1 ! frame)) s1 of
                   Inl e \<Rightarrow> (Inl e, s1)
                 | Inr s2 \<Rightarrow>
                     (Inr (),
                      s2\<lparr>bufDescTable := (bufDescTable s2)[frame := clear (bufDescTable s2 ! frame)]\<rparr>))
         else (Inr (), s))"

fun flushFile_loop :: "File \<Rightarrow> FrameId list \<Rightarrow> BufMgr \<Rightarrow> (error + unit) \<times> BufMgr" where
  "flushFile_loop f [] s = (Inr (), s)"
| "flushFile_loop f (frame # frames) s =
     (case flushFile_frame f frame s of
        (Inl e, s') \<Rightarrow> (Inl e, s')
      | (Inr _, s') \<Rightarrow> flushFile_loop f frames s')"

text \<open>\<^verbatim>\<open>for (FrameId frame = 0; frame < numBufs; frame++)\<close>\<close>

definition flushFile :: "File \<Rightarrow> BufMgr \<Rightarrow> (error + unit) \<times> BufMgr" where
  "flushFile f s = flushFile_loop f [0..<numBufs s] s"

definition disposePage :: "File \<Rightarrow> PageId \<Rightarrow> BufMgr \<Rightarrow> (error + unit) \<times> BufMgr" where
  "disposePage f pgNo s =
     (let tried =
            (case hashTable_lookup f pgNo s of
               Inl e \<Rightarrow> (Inl e, s)
             | Inr fr \<Rightarrow>
                 (let s1 = s\<lparr>bufDescTable := (bufDescTable s)[fr := clear (bufDescTable s ! fr)]\<rparr>
                  in case hashTable_remove f pgNo s1 of
                       Inl e \<Rightarrow> (Inl e, s1)
                     | Inr s2 \<Rightarrow> (Inr (), s2)))
      in case tried of
           (Inl e, s') \<Rightarrow>
             if e = HashNotFound then (Inr (), file_deletePage f pgNo s') else (Inl e, s')
         | (Inr _, s') \<Rightarrow> (Inr (), file_deletePage f pgNo s'))"

section \<open>Client sequences and example pools\<close>

text \<open>A caller unpinning the same page several times in a row, stopping at the first error.\<close>

fun unPinAll :: "File \<Rightarrow> PageId \<Rightarrow> bool list \<Rightarrow> BufMgr \<Rightarrow> (error + unit) \<times> BufMgr" where
  "unPinAll f pgNo [] s = (Inr (), s)"
| "unPinAll f pgNo (isDirty # rest) s =
     (case unPinPage f pgNo isDirty s of
        (Inl e, s') \<Rightarrow> (Inl e, s')
      | (Inr _, s') \<Rightarrow> unPinAll f pgNo rest s')"

text \<open>A descriptor with its reference bit masked: the sweep changes nothing else in the table.\<close>

definition without_refbit :: "BufDesc \<Rightarrow> BufDesc" where
  "without_refbit d = d\<lparr>refbit := False\<rparr>"

text \<open>A file \<open>''f''\<close> with three pages, and pools reached from a fresh manager.\<close>

definition pageA :: Page where "pageA = \<lparr>page_number = 1, contents = ''A''\<rparr>"
definition pageB :: Page where "pageB = \<lparr>page_number = 2, contents = ''B''\<rparr>"
definition pageC :: Page where "pageC = \<lparr>page_number = 3, contents = ''C''\<rparr>"

definition disk0 :: "File \<Rightarrow> PageId \<rightharpoonup> Page" where
  "disk0 = (\<lambda>_. Map.empty)(''f'' := [1 \<mapsto> pageA, 2 \<mapsto> pageB, 3 \<mapsto> pageC])"

text \<open>One frame, page 1 fetched once.\<close>

definition pinnedA :: BufMgr where
  "pinnedA = snd (readPage ''f'' 1 (BufMgr_new 1 disk0))"

text \<open>... then unpinned, clean or dirty.\<close>

definition unpinnedA :: BufMgr where
  "unpinnedA = snd (unPinPage ''f'' 1 False pinnedA)"

definition dirtyA :: BufMgr where
  "dirtyA = snd (unPinPage ''f'' 1 True pinnedA)"

text \<open>
  Page 2 fetched into the only frame after page 1 was unpinned; then page 2 disposed of;
  then page 1 fetched again.
\<close>

definition evictedA :: BufMgr where
  "evictedA = snd (readPage ''f'' 2 unpinnedA)"

definition disposedB :: BufMgr where
  "disposedB = snd (disposePage ''f'' 2 evictedA)"

definition stalePinned :: BufMgr where
  "stalePinned = snd (readPage ''f'' 1 disposedB)"

text \<open>
  Three frames holding pages 1, 2, 3: page 1 unpinned dirty, page 2 still pinned, page 3
  unpinned clean.
\<close>

definition pool3 :: BufMgr where
  "pool3 =
     snd (unPinPage ''f'' 3 False
       (snd (unPinPage ''f'' 1 True
         (snd (readPage ''f'' 3
           (snd (readPage ''f'' 2
             (snd (readPage ''f'' 1 (BufMgr_new 3 disk0))))))))))"

text \<open>
  The earlier draft of \<^verbatim>\<open>allocBuf\<close> (the first variant in \<^verbatim>\<open>buffer.cpp\<close>) runs the same
  loop body under \<^verbatim>\<open>while(true)\<close>, with no bound and no throw. A run that never leaves the
  loop is the value \<open>None\<close>.
\<close>

partial_function (option) allocBuf_draft :: "BufMgr \<Rightarrow> (FrameId \<times> BufMgr) option" where
  "allocBuf_draft s =
     (case allocBuf_visit s of
        (Some frame, s') \<Rightarrow> Some (frame, s')
      | (None, s') \<Rightarrow> allocBuf_draft s')"

section \<open>Evaluating the example pools\<close>

lemma allocBuf_loop_numeral:
  "allocBuf_loop (numeral k) s =
     (case allocBuf_visit s of
        (Some frame, s') \<Rightarrow> (Inr frame, s')
      | (None, s') \<Rightarrow> allocBuf_loop (pred_numeral k) s')"
  by (simp add: numeral_eq_Suc)

lemmas eval_defs =
  readPage_def unPinPage_def allocPage_def disposePage_def
  hashTable_lookup_def hashTable_insert_def hashTable_remove_def
  BufMgr_new_def allocBuf_def allocBuf_loop_numeral allocBuf_visit_def advanceClock_def
  u32_def Let_def
  file_readPage_def file_writePage_def file_deletePage_def file_allocatePage_def
  desc_file_writePage_def Set_desc_def clear_def BufDesc_default_def Page_default_def
  disk0_def pageA_def pageB_def pageC_def

lemma pinnedA_eq:
  "pinnedA =
     \<lparr>numBufs = 1, clockHand = 0, hashTable = [(''f'', 1) \<mapsto> 0],
      bufDescTable = [\<lparr>file' = Some ''f'', pageNo = 1, frameNo = 0, pinCnt = 1,
                       dirty = False, valid = True, refbit = True\<rparr>],
      bufPool = [pageA], disk = disk0, io = [ReadPage ''f'' 1]\<rparr>"
  unfolding pinnedA_def by (simp add: eval_defs)

lemma unpinnedA_eq:
  "unpinnedA =
     \<lparr>numBufs = 1, clockHand = 0, hashTable = [(''f'', 1) \<mapsto> 0],
      bufDescTable = [\<lparr>file' = Some ''f'', pageNo = 1, frameNo = 0, pinCnt = 0,
                       dirty = False, valid = True, refbit = True\<rparr>],
      bufPool = [pageA], disk = disk0, io = [ReadPage ''f'' 1]\<rparr>"
  unfolding unpinnedA_def pinnedA_eq by (simp add: eval_defs)

lemma dirtyA_eq:
  "dirtyA =
     \<lparr>numBufs = 1, clockHand = 0, hashTable = [(''f'', 1) \<mapsto> 0],
      bufDescTable = [\<lparr>file' = Some ''f'', pageNo = 1, frameNo = 0, pinCnt = 0,
                       dirty = True, valid = True, refbit = True\<rparr>],
      bufPool = [pageA], disk = disk0, io = [ReadPage ''f'' 1]\<rparr>"
  unfolding dirtyA_def pinnedA_eq by (simp add: eval_defs)

section \<open>unPinPage\<close>

text \<open>
  C7. \<^verbatim>\<open>unPinPage(file, pageNo, dirty)\<close>: if the page is absent from the directory the call
  returns successfully and changes nothing; if it is present with pin count 0 the call fails
  with PageNotPinned (and changes nothing); otherwise the pin count of its frame goes down by
  one and the dirty bit becomes \<open>isDirty \<or> dirty\<close>: it is set when \<open>isDirty\<close> is true and
  never cleared when \<open>isDirty\<close> is false. Nothing else changes.
\<close>

theorem unPinPage_cases:
  "(hashTable s (f, p) = None \<longrightarrow> unPinPage f p isDirty s = (Inr (), s)) \<and>
   (\<forall>fr. hashTable s (f, p) = Some fr \<and> fr < length (bufDescTable s) \<and>
         pinCnt (bufDescTable s ! fr) = 0 \<longrightarrow>
         unPinPage f p isDirty s = (Inl PageNotPinned, s)) \<and>
   (\<forall>fr. hashTable s (f, p) = Some fr \<and> fr < length (bufDescTable s) \<and>
         pinCnt (bufDescTable s ! fr) > 0 \<longrightarrow>
         unPinPage f p isDirty s =
           (Inr (), s\<lparr>bufDescTable := (bufDescTable s)
              [fr := (bufDescTable s ! fr)\<lparr>pinCnt := pinCnt (bufDescTable s ! fr) - 1,
                        dirty := (isDirty \<or> dirty (bufDescTable s ! fr))\<rparr>]\<rparr>))"
  by (auto simp: unPinPage_def hashTable_lookup_def Let_def)

theorem unPinPage_cases_witness:
  "unPinPage ''f'' 1 True (BufMgr_new 1 disk0) = (Inr (), BufMgr_new 1 disk0) \<and>
   unPinPage ''f'' 1 True unpinnedA = (Inl PageNotPinned, unpinnedA) \<and>
   fst (unPinPage ''f'' 1 True pinnedA) = Inr () \<and>
   pinCnt (bufDescTable (snd (unPinPage ''f'' 1 True pinnedA)) ! 0) = 0 \<and>
   dirty (bufDescTable (snd (unPinPage ''f'' 1 True pinnedA)) ! 0) \<and>
   dirty (bufDescTable (snd (unPinPage ''f'' 1 False dirtyA)) ! 0)"
  using unPinPage_cases[of "BufMgr_new 1 disk0" "''f''" 1 True]
        unPinPage_cases[of unpinnedA "''f''" 1 True]
        unPinPage_cases[of pinnedA "''f''" 1 True]
        unPinPage_cases[of dirtyA "''f''" 1 False]
  by (simp add: unpinnedA_eq pinnedA_eq dirtyA_eq BufMgr_new_def)

section \<open>Pin and unpin\<close>

lemma unPinPage_hit:
  assumes "hashTable s (f, p) = Some fr"
  shows "unPinPage f p isDirty s =
     (if pinCnt (bufDescTable s ! fr) = 0 then (Inl PageNotPinned, s)
      else (Inr (), s\<lparr>bufDescTable := (bufDescTable s)
              [fr := (bufDescTable s ! fr)\<lparr>pinCnt := pinCnt (bufDescTable s ! fr) - 1,
                        dirty := (isDirty \<or> dirty (bufDescTable s ! fr))\<rparr>]\<rparr>))"
  using assms by (auto simp: unPinPage_def hashTable_lookup_def Let_def)

lemma unPinAll_count:
  assumes "hashTable s (f, p) = Some fr" "fr < length (bufDescTable s)"
  shows "fst (unPinAll f p flags s) =
           (if length flags \<le> pinCnt (bufDescTable s ! fr) then Inr () else Inl PageNotPinned)"
  using assms
proof (induction flags arbitrary: s)
  case Nil
  then show ?case by simp
next
  case (Cons b flags)
  show ?case
  proof (cases "pinCnt (bufDescTable s ! fr) = 0")
    case True
    then show ?thesis using Cons.prems by (simp add: unPinPage_hit)
  next
    case False
    let ?s' = "s\<lparr>bufDescTable := (bufDescTable s)
              [fr := (bufDescTable s ! fr)\<lparr>pinCnt := pinCnt (bufDescTable s ! fr) - 1,
                        dirty := (b \<or> dirty (bufDescTable s ! fr))\<rparr>]\<rparr>"
    have step: "unPinPage f p b s = (Inr (), ?s')"
      using False Cons.prems by (simp add: unPinPage_hit)
    have "fst (unPinAll f p flags ?s') =
           (if length flags \<le> pinCnt (bufDescTable ?s' ! fr) then Inr () else Inl PageNotPinned)"
      by (rule Cons.IH) (use Cons.prems in simp_all)
    then show ?thesis using step False Cons.prems by auto
  qed
qed

text \<open>
  C6. For a page resident in the pool (the directory maps it to frame \<open>fr\<close>), \<^verbatim>\<open>readPage\<close>
  followed by \<^verbatim>\<open>unPinPage(.., false)\<close> both succeed and bring the pin count of the frame
  back to what it was before the fetch. A run of unpins of the page succeeds as long as it is
  no longer than the pin count, and fails with PageNotPinned as soon as it is longer.
\<close>

theorem pin_unpin_symmetry:
  assumes "hashTable s (f, p) = Some fr" "fr < length (bufDescTable s)"
  shows "(\<exists>s1 s2. readPage f p s = (Inr fr, s1) \<and> unPinPage f p False s1 = (Inr (), s2) \<and>
            pinCnt (bufDescTable s1 ! fr) = pinCnt (bufDescTable s ! fr) + 1 \<and>
            pinCnt (bufDescTable s2 ! fr) = pinCnt (bufDescTable s ! fr)) \<and>
         (\<forall>flags. fst (unPinAll f p flags s) =
            (if length flags \<le> pinCnt (bufDescTable s ! fr) then Inr () else Inl PageNotPinned))"
proof -
  have "\<exists>s1 s2. readPage f p s = (Inr fr, s1) \<and> unPinPage f p False s1 = (Inr (), s2) \<and>
            pinCnt (bufDescTable s1 ! fr) = pinCnt (bufDescTable s ! fr) + 1 \<and>
            pinCnt (bufDescTable s2 ! fr) = pinCnt (bufDescTable s ! fr)"
    using assms by (simp add: readPage_def unPinPage_def hashTable_lookup_def Let_def)
  then show ?thesis using unPinAll_count[OF assms] by blast
qed

theorem pin_unpin_symmetry_witness:
  "hashTable pinnedA (''f'', 1) = Some 0 \<and> 0 < length (bufDescTable pinnedA) \<and>
   pinCnt (bufDescTable pinnedA ! 0) = 1 \<and>
   pinCnt (bufDescTable (snd (unPinPage ''f'' 1 False (snd (readPage ''f'' 1 pinnedA)))) ! 0) = 1 \<and>
   fst (unPinAll ''f'' 1 [False] pinnedA) = Inr () \<and>
   fst (unPinAll ''f'' 1 [False, False] pinnedA) = Inl PageNotPinned"
proof -
  have h: "hashTable pinnedA (''f'', 1) = Some 0" "0 < length (bufDescTable pinnedA)"
    by (simp_all add: pinnedA_eq)
  have c: "pinCnt (bufDescTable pinnedA ! 0) = 1" by (simp add: pinnedA_eq)
  from pin_unpin_symmetry[OF h] c h show ?thesis
    by (auto simp del: unPinAll.simps)
qed

section \<open>The replacement sweep: what it leaves alone\<close>

lemma without_refbit_fields:
  assumes "without_refbit a = without_refbit b"
  shows "valid a = valid b" "pinCnt a = pinCnt b" "dirty a = dirty b"
        "file' a = file' b" "pageNo a = pageNo b" "frameNo a = frameNo b"
proof -
  have "valid (without_refbit a) = valid (without_refbit b)"
       "pinCnt (without_refbit a) = pinCnt (without_refbit b)"
       "dirty (without_refbit a) = dirty (without_refbit b)"
       "file' (without_refbit a) = file' (without_refbit b)"
       "pageNo (without_refbit a) = pageNo (without_refbit b)"
       "frameNo (without_refbit a) = frameNo (without_refbit b)"
    using assms by simp_all
  then show "valid a = valid b" "pinCnt a = pinCnt b" "dirty a = dirty b"
        "file' a = file' b" "pageNo a = pageNo b" "frameNo a = frameNo b"
    by (simp_all add: without_refbit_def)
qed

lemma map_without_refbit_update:
  "map without_refbit (xs[h := (xs ! h)\<lparr>refbit := False\<rparr>]) = map without_refbit xs"
proof (cases "h < length xs")
  case True
  have "map without_refbit (xs[h := (xs ! h)\<lparr>refbit := False\<rparr>])
          = (map without_refbit xs)[h := without_refbit ((xs ! h)\<lparr>refbit := False\<rparr>)]"
    by (simp add: map_update)
  also have "without_refbit ((xs ! h)\<lparr>refbit := False\<rparr>) = map without_refbit xs ! h"
    using True by (simp add: without_refbit_def)
  finally show ?thesis by simp
next
  case False
  then show ?thesis by (simp add: list_update_beyond)
qed

lemma advanceClock_hand:
  "0 < numBufs s \<Longrightarrow> clockHand (advanceClock s) < numBufs s"
  by (simp add: advanceClock_def)

text \<open>What a visit leaves alone.\<close>
lemma allocBuf_visit_frame:
  assumes "allocBuf_visit s = (r, s')"
  shows "numBufs s' = numBufs s" "hashTable s' = hashTable s" "bufPool s' = bufPool s"
        "map without_refbit (bufDescTable s') = map without_refbit (bufDescTable s)"
        "length (bufDescTable s') = length (bufDescTable s)"
proof -
  show "numBufs s' = numBufs s" "hashTable s' = hashTable s" "bufPool s' = bufPool s"
    using assms
    by (auto simp: allocBuf_visit_def Let_def advanceClock_def desc_file_writePage_def
        file_writePage_def split: if_splits option.splits)
  show m: "map without_refbit (bufDescTable s') = map without_refbit (bufDescTable s)"
    using assms
    by (auto simp: allocBuf_visit_def Let_def advanceClock_def desc_file_writePage_def
        file_writePage_def map_without_refbit_update split: if_splits option.splits)
  show "length (bufDescTable s') = length (bufDescTable s)"
    using arg_cong[OF m, of length] by simp
qed

lemma allocBuf_visit_continue:
  assumes "allocBuf_visit s = (None, s')"
  shows "io s' = io s" "disk s' = disk s"
  using assms
  by (auto simp: allocBuf_visit_def Let_def advanceClock_def split: if_splits)

lemma allocBuf_visit_select:
  assumes "allocBuf_visit s = (Some h, s')"
  shows "h = clockHand (advanceClock s)"
    and "valid (bufDescTable s ! h) \<longrightarrow>
           \<not> refbit (bufDescTable s ! h) \<and> pinCnt (bufDescTable s ! h) = 0"
    and "io s' = io s @
          (if valid (bufDescTable s ! h) \<and> dirty (bufDescTable s ! h) then
             (case file' (bufDescTable s ! h) of
                None \<Rightarrow> [] | Some g \<Rightarrow> [WritePage g (bufPool s ! h)])
           else [])"
  using assms
  by (auto simp: allocBuf_visit_def Let_def advanceClock_def desc_file_writePage_def
        file_writePage_def split: if_splits option.splits)

lemma allocBuf_loop_frame:
  assumes "allocBuf_loop n s = (r, s')"
  shows "numBufs s' = numBufs s \<and> hashTable s' = hashTable s \<and> bufPool s' = bufPool s \<and>
         map without_refbit (bufDescTable s') = map without_refbit (bufDescTable s) \<and>
         length (bufDescTable s') = length (bufDescTable s)"
  using assms
proof (induction n arbitrary: s)
  case 0
  then show ?case by simp
next
  case (Suc n)
  obtain r1 s1 where v: "allocBuf_visit s = (r1, s1)" by (cases "allocBuf_visit s")
  note fr = allocBuf_visit_frame[OF v]
  show ?case
  proof (cases r1)
    case None
    with Suc.prems v have "allocBuf_loop n s1 = (r, s')" by simp
    from Suc.IH[OF this] fr show ?thesis by simp
  next
    case (Some h)
    with Suc.prems v have "s' = s1" by simp
    with fr show ?thesis by simp
  qed
qed

lemma allocBuf_loop_select:
  assumes "allocBuf_loop n s = (Inr h, s')"
      and "length (bufDescTable s) = numBufs s" and "0 < numBufs s"
  shows "h < numBufs s \<and>
         (valid (bufDescTable s ! h) \<longrightarrow> pinCnt (bufDescTable s ! h) = 0) \<and>
         io s' = io s @
          (if valid (bufDescTable s ! h) \<and> dirty (bufDescTable s ! h) then
             (case file' (bufDescTable s ! h) of
                None \<Rightarrow> [] | Some g \<Rightarrow> [WritePage g (bufPool s ! h)])
           else [])"
  using assms
proof (induction n arbitrary: s)
  case 0
  then show ?case by simp
next
  case (Suc n)
  obtain r1 s1 where v: "allocBuf_visit s = (r1, s1)" by (cases "allocBuf_visit s")
  note fr = allocBuf_visit_frame[OF v]
  show ?case
  proof (cases r1)
    case None
    with Suc.prems v have l: "allocBuf_loop n s1 = (Inr h, s')" by simp
    have ih: "h < numBufs s1 \<and>
         (valid (bufDescTable s1 ! h) \<longrightarrow> pinCnt (bufDescTable s1 ! h) = 0) \<and>
         io s' = io s1 @
          (if valid (bufDescTable s1 ! h) \<and> dirty (bufDescTable s1 ! h) then
             (case file' (bufDescTable s1 ! h) of
                None \<Rightarrow> [] | Some g \<Rightarrow> [WritePage g (bufPool s1 ! h)])
           else [])"
      by (rule Suc.IH[OF l]) (use fr Suc.prems in simp_all)
    then have hlt: "h < length (bufDescTable s)" using fr Suc.prems by simp
    have "without_refbit (bufDescTable s1 ! h) = map without_refbit (bufDescTable s1) ! h"
      using hlt fr(5) by simp
    also have "\<dots> = map without_refbit (bufDescTable s) ! h"
      using fr(4) by simp
    also have "\<dots> = without_refbit (bufDescTable s ! h)"
      using hlt by simp
    finally have "without_refbit (bufDescTable s1 ! h) = without_refbit (bufDescTable s ! h)" .
    note eqs = without_refbit_fields[OF this]
    have "io s1 = io s" using allocBuf_visit_continue[of s s1] v None by simp
    with ih eqs fr(1,3) show ?thesis by (simp cong: if_cong option.case_cong)
  next
    case (Some h')
    with Suc.prems v have "s' = s1" "h' = h" by simp_all
    with v Some have sel: "allocBuf_visit s = (Some h, s')" by simp
    from allocBuf_visit_select[OF sel] advanceClock_hand[OF Suc.prems(3)]
    show ?thesis by simp
  qed
qed

section \<open>More example pools\<close>

lemma evictedA_eq:
  "evictedA =
     \<lparr>numBufs = 1, clockHand = 0, hashTable = [(''f'', 1) \<mapsto> 0, (''f'', 2) \<mapsto> 0],
      bufDescTable = [\<lparr>file' = Some ''f'', pageNo = 2, frameNo = 0, pinCnt = 1,
                       dirty = False, valid = True, refbit = True\<rparr>],
      bufPool = [pageB], disk = disk0, io = [ReadPage ''f'' 1, ReadPage ''f'' 2]\<rparr>"
  unfolding evictedA_def unpinnedA_eq by (simp add: eval_defs)

section \<open>A pool with every frame pinned\<close>

lemma same_but_refbit_nth:
  assumes "map without_refbit xs = map without_refbit ys" "i < length ys"
  shows "without_refbit (xs ! i) = without_refbit (ys ! i)"
proof -
  have l: "length xs = length ys" using arg_cong[OF assms(1), of length] by simp
  have "without_refbit (xs ! i) = map without_refbit xs ! i" using l assms(2) by simp
  also have "\<dots> = map without_refbit ys ! i" using assms(1) by simp
  also have "\<dots> = without_refbit (ys ! i)" using assms(2) by simp
  finally show ?thesis .
qed

lemma allocBuf_visit_all_pinned:
  assumes "length (bufDescTable s) = numBufs s" "0 < numBufs s"
      and "\<forall>i<numBufs s. valid (bufDescTable s ! i) \<and> 0 < pinCnt (bufDescTable s ! i)"
  shows "fst (allocBuf_visit s) = None"
proof -
  have "clockHand (advanceClock s) < numBufs s" using assms(2) by (rule advanceClock_hand)
  with assms(3) have "valid (bufDescTable s ! clockHand (advanceClock s))"
      "0 < pinCnt (bufDescTable s ! clockHand (advanceClock s))" by simp_all
  then show ?thesis
    by (simp add: allocBuf_visit_def Let_def advanceClock_def)
qed

lemma allocBuf_loop_all_pinned:
  assumes "length (bufDescTable s) = numBufs s" "0 < numBufs s"
      and "\<forall>i<numBufs s. valid (bufDescTable s ! i) \<and> 0 < pinCnt (bufDescTable s ! i)"
  shows "allocBuf_loop n s = (Inl BufferExceeded, ((\<lambda>t. snd (allocBuf_visit t)) ^^ n) s)"
  using assms
proof (induction n arbitrary: s)
  case 0
  then show ?case by simp
next
  case (Suc n)
  obtain r1 s1 where v: "allocBuf_visit s = (r1, s1)" by (cases "allocBuf_visit s")
  note fr = allocBuf_visit_frame[OF v]
  have r1: "r1 = None" using allocBuf_visit_all_pinned[OF Suc.prems] v by simp
  have pinned: "\<forall>i<numBufs s1. valid (bufDescTable s1 ! i) \<and> 0 < pinCnt (bufDescTable s1 ! i)"
  proof (intro allI impI)
    fix i assume "i < numBufs s1"
    then have i: "i < length (bufDescTable s)" using fr Suc.prems by simp
    note eqs = without_refbit_fields[OF same_but_refbit_nth[OF fr(4) i]]
    show "valid (bufDescTable s1 ! i) \<and> 0 < pinCnt (bufDescTable s1 ! i)"
      using eqs Suc.prems(3) i Suc.prems(1) by simp
  qed
  have "allocBuf_loop n s1 = (Inl BufferExceeded, ((\<lambda>t. snd (allocBuf_visit t)) ^^ n) s1)"
    by (rule Suc.IH) (use fr Suc.prems pinned in simp_all)
  moreover have "((\<lambda>t. snd (allocBuf_visit t)) ^^ Suc n) s =
                 ((\<lambda>t. snd (allocBuf_visit t)) ^^ n) (snd (allocBuf_visit s))"
    by (simp only: funpow_Suc_right comp_apply)
  ultimately show ?case using v r1 by (simp del: funpow.simps)
qed

text \<open>
  C1. In a pool of \<open>N\<close> frames that are all occupied and pinned, \<^verbatim>\<open>allocBuf\<close> returns,
  throwing BufferExceeded, after \<open>k \<le> 2 * N\<close> visits of a frame (the state it leaves is the
  one \<open>k\<close> iterations of the loop body produce; \<open>k\<close> is \<open>2 * N\<close> in 32-bit arithmetic). The
  exception reaches the caller of \<^verbatim>\<open>readPage\<close> on a miss and of \<^verbatim>\<open>allocPage\<close>. The
  function is total: the loop is a recursion on the number of iterations left.
\<close>

theorem allocBuf_all_pinned:
  assumes "length (bufDescTable s) = numBufs s"
      and "\<forall>i<numBufs s. valid (bufDescTable s ! i) \<and> 0 < pinCnt (bufDescTable s ! i)"
  shows "(\<exists>k\<le>2 * numBufs s.
            allocBuf s = (Inl BufferExceeded, ((\<lambda>t. snd (allocBuf_visit t)) ^^ k) s)) \<and>
         (\<forall>f p. hashTable s (f, p) = None \<longrightarrow> fst (readPage f p s) = Inl BufferExceeded) \<and>
         (\<forall>f newPage. fst (allocPage f newPage s) = Inl BufferExceeded)"
proof -
  have sweep: "allocBuf t = (Inl BufferExceeded, ((\<lambda>t. snd (allocBuf_visit t)) ^^ u32 (2 * numBufs t)) t)"
    if "length (bufDescTable t) = numBufs t"
      and "\<forall>i<numBufs t. valid (bufDescTable t ! i) \<and> 0 < pinCnt (bufDescTable t ! i)" for t
  proof (cases "numBufs t = 0")
    case True
    then show ?thesis by (simp add: allocBuf_def u32_def)
  next
    case False
    then show ?thesis unfolding allocBuf_def
      using allocBuf_loop_all_pinned[of t] that by simp
  qed
  have k: "u32 (2 * numBufs s) \<le> 2 * numBufs s" by (simp add: u32_def)
  have a: "\<exists>k\<le>2 * numBufs s.
            allocBuf s = (Inl BufferExceeded, ((\<lambda>t. snd (allocBuf_visit t)) ^^ k) s)"
    using sweep[OF assms] k by blast
  have b: "fst (readPage f p s) = Inl BufferExceeded" if "hashTable s (f, p) = None" for f p
    using that sweep[OF assms] by (simp add: readPage_def hashTable_lookup_def)
  have c: "fst (allocPage f newPage s) = Inl BufferExceeded" for f newPage
  proof -
    have "allocBuf (file_allocatePage f newPage s) =
       (Inl BufferExceeded, ((\<lambda>t. snd (allocBuf_visit t)) ^^ u32 (2 * numBufs (file_allocatePage f newPage s)))
           (file_allocatePage f newPage s))"
      by (rule sweep) (use assms in \<open>simp_all add: file_allocatePage_def\<close>)
    then show ?thesis by (simp add: allocPage_def Let_def)
  qed
  from a b c show ?thesis by blast
qed

theorem allocBuf_all_pinned_witness:
  "length (bufDescTable pinnedA) = numBufs pinnedA \<and> numBufs pinnedA = 1 \<and>
   valid (bufDescTable pinnedA ! 0) \<and> 0 < pinCnt (bufDescTable pinnedA ! 0) \<and>
   fst (allocBuf pinnedA) = Inl BufferExceeded \<and>
   fst (readPage ''f'' 2 pinnedA) = Inl BufferExceeded \<and>
   fst (allocPage ''f'' pageC pinnedA) = Inl BufferExceeded"
proof -
  have h: "length (bufDescTable pinnedA) = numBufs pinnedA"
     "\<forall>i<numBufs pinnedA. valid (bufDescTable pinnedA ! i) \<and> 0 < pinCnt (bufDescTable pinnedA ! i)"
    by (simp_all add: pinnedA_eq)
  have m: "hashTable pinnedA (''f'', 2) = None" by (simp add: pinnedA_eq)
  have v: "numBufs pinnedA = 1" "valid (bufDescTable pinnedA ! 0)"
    "0 < pinCnt (bufDescTable pinnedA ! 0)"
    by (simp_all add: pinnedA_eq)
  from allocBuf_all_pinned[OF h] m h(1) v show ?thesis by auto
qed

section \<open>Pools with a stale directory entry\<close>

lemma disposedB_eq:
  "disposedB =
     \<lparr>numBufs = 1, clockHand = 0, hashTable = [(''f'', 1) \<mapsto> 0],
      bufDescTable = [\<lparr>file' = None, pageNo = 0, frameNo = 0, pinCnt = 0,
                       dirty = False, valid = False, refbit = False\<rparr>],
      bufPool = [pageB], disk = disk0(''f'' := [1 \<mapsto> pageA, 3 \<mapsto> pageC]),
      io = [ReadPage ''f'' 1, ReadPage ''f'' 2, DeletePage ''f'' 2]\<rparr>"
  unfolding disposedB_def evictedA_eq by (auto simp add: eval_defs fun_upd_twist)

lemma stalePinned_eq:
  "stalePinned =
     \<lparr>numBufs = 1, clockHand = 0, hashTable = [(''f'', 1) \<mapsto> 0],
      bufDescTable = [\<lparr>file' = None, pageNo = 0, frameNo = 0, pinCnt = 1,
                       dirty = False, valid = False, refbit = True\<rparr>],
      bufPool = [pageB], disk = disk0(''f'' := [1 \<mapsto> pageA, 3 \<mapsto> pageC]),
      io = [ReadPage ''f'' 1, ReadPage ''f'' 2, DeletePage ''f'' 2]\<rparr>"
  unfolding stalePinned_def disposedB_eq by (simp add: readPage_def hashTable_lookup_def Let_def)

section \<open>The frame the sweep selects\<close>

lemma allocBuf_select:
  assumes "allocBuf s = (Inr h, s')" and "length (bufDescTable s) = numBufs s"
  shows "h < numBufs s"
    and "valid (bufDescTable s ! h) \<longrightarrow> pinCnt (bufDescTable s ! h) = 0"
    and "io s' = io s @
          (if valid (bufDescTable s ! h) \<and> dirty (bufDescTable s ! h) then
             (case file' (bufDescTable s ! h) of
                None \<Rightarrow> [] | Some g \<Rightarrow> [WritePage g (bufPool s ! h)])
           else [])"
    and "length (bufDescTable s') = numBufs s"
proof -
  have pos: "0 < numBufs s"
  proof (rule ccontr)
    assume "\<not> 0 < numBufs s"
    then have "allocBuf s = (Inl BufferExceeded, s)" by (simp add: allocBuf_def u32_def)
    with assms(1) show False by simp
  qed
  from assms(1) have l: "allocBuf_loop (u32 (2 * numBufs s)) s = (Inr h, s')"
    by (simp add: allocBuf_def)
  from allocBuf_loop_select[OF l assms(2) pos]
  show "h < numBufs s"
    and "valid (bufDescTable s ! h) \<longrightarrow> pinCnt (bufDescTable s ! h) = 0"
    and "io s' = io s @
          (if valid (bufDescTable s ! h) \<and> dirty (bufDescTable s ! h) then
             (case file' (bufDescTable s ! h) of
                None \<Rightarrow> [] | Some g \<Rightarrow> [WritePage g (bufPool s ! h)])
           else [])"
    by simp_all
  from allocBuf_loop_frame[OF l] assms(2) show "length (bufDescTable s') = numBufs s" by simp
qed

text \<open>
  C4. No frame with pin count above 0 is to be selected by the sweep. The code selects one:
  in a one-frame pool, after fetch 1, unpin 1, fetch 2, dispose 2, the directory still maps
  page 1 to frame 0 (the entry the eviction of page 1 left behind), so a fetch of page 1 is a
  hit that pins the cleared frame. In that pool, \<open>stalePinned\<close>, frame 0 is unoccupied with
  pin count 1; \<^verbatim>\<open>allocBuf\<close> selects it, and a fetch of page 3 overwrites its content
  while the pin is outstanding.
\<close>

theorem allocBuf_selects_pinned_frame:
  "fst (readPage ''f'' 1 disposedB) = Inr 0 \<and>
   stalePinned = snd (readPage ''f'' 1 disposedB) \<and>
   \<not> valid (bufDescTable stalePinned ! 0) \<and>
   0 < pinCnt (bufDescTable stalePinned ! 0) \<and>
   fst (allocBuf stalePinned) = Inr 0 \<and>
   fst (readPage ''f'' 3 stalePinned) = Inr 0 \<and>
   bufPool (snd (readPage ''f'' 3 stalePinned)) ! 0 = pageC"
  unfolding stalePinned_def[symmetric]
  apply (simp add: stalePinned_eq)
  apply (simp add: disposedB_eq eval_defs)
  done

text \<open>
  What the sweep does guarantee: an occupied frame with pin count above 0 is never the frame
  \<^verbatim>\<open>allocBuf\<close> selects, whatever its reference and dirty bits are. When the sweep visits
  an occupied frame whose reference bit is set, that iteration selects nothing and leaves the
  bit cleared.
\<close>

theorem allocBuf_spares_pinned:
  assumes "length (bufDescTable s) = numBufs s"
  shows "(\<forall>i<numBufs s. valid (bufDescTable s ! i) \<and> 0 < pinCnt (bufDescTable s ! i) \<longrightarrow>
            fst (allocBuf s) \<noteq> Inr i) \<and>
         (0 < numBufs s \<and> valid (bufDescTable s ! clockHand (advanceClock s)) \<and>
          refbit (bufDescTable s ! clockHand (advanceClock s)) \<longrightarrow>
            fst (allocBuf_visit s) = None \<and>
            \<not> refbit (bufDescTable (snd (allocBuf_visit s)) ! clockHand (advanceClock s)))"
proof -
  have a: "fst (allocBuf s) \<noteq> Inr i"
    if "valid (bufDescTable s ! i)" "0 < pinCnt (bufDescTable s ! i)" for i
  proof
    assume e: "fst (allocBuf s) = Inr i"
    obtain s' where "allocBuf s = (Inr i, s')" using e by (cases "allocBuf s") simp
    from allocBuf_select(2)[OF this assms] that show False by simp
  qed
  have b: "fst (allocBuf_visit s) = None \<and>
            \<not> refbit (bufDescTable (snd (allocBuf_visit s)) ! clockHand (advanceClock s))"
    if "0 < numBufs s" "valid (bufDescTable s ! clockHand (advanceClock s))"
       "refbit (bufDescTable s ! clockHand (advanceClock s))"
  proof -
    have "clockHand (advanceClock s) < length (bufDescTable s)"
      using advanceClock_hand[OF that(1)] assms by simp
    then show ?thesis using that(2,3)
      by (simp add: allocBuf_visit_def Let_def advanceClock_def)
  qed
  from a b show ?thesis by blast
qed

theorem allocBuf_spares_pinned_witness:
  "length (bufDescTable pinnedA) = numBufs pinnedA \<and>
   valid (bufDescTable pinnedA ! 0) \<and> 0 < pinCnt (bufDescTable pinnedA ! 0) \<and>
   fst (allocBuf pinnedA) \<noteq> Inr 0 \<and>
   refbit (bufDescTable pinnedA ! clockHand (advanceClock pinnedA)) \<and>
   fst (allocBuf_visit pinnedA) = None \<and>
   \<not> refbit (bufDescTable (snd (allocBuf_visit pinnedA)) ! clockHand (advanceClock pinnedA))"
proof -
  have h: "length (bufDescTable pinnedA) = numBufs pinnedA" by (simp add: pinnedA_eq)
  have v: "0 < numBufs pinnedA" "valid (bufDescTable pinnedA ! 0)" "0 < pinCnt (bufDescTable pinnedA ! 0)"
    "clockHand (advanceClock pinnedA) = 0" "refbit (bufDescTable pinnedA ! 0)"
    by (simp_all add: pinnedA_eq advanceClock_def u32_def)
  from allocBuf_spares_pinned[OF h] h v show ?thesis by auto
qed

section \<open>Eviction\<close>

text \<open>
  C2. The directory is meant to hold exactly one entry per occupied frame, the entry of a
  victim being removed (and its descriptor cleared) before the frame is reused. The code does
  not do it: in a one-frame pool holding page 1 unpinned, \<^verbatim>\<open>allocBuf\<close> selects frame 0
  and leaves both its directory entry and its descriptor in place; after the fetch of page 2
  that follows, the directory maps both (f, 1) and (f, 2) to frame 0, which holds page 2, and a
  fetch of page 1 is a hit on that frame.
\<close>

theorem eviction_keeps_directory_entry:
  "hashTable unpinnedA (''f'', 1) = Some 0 \<and>
   valid (bufDescTable unpinnedA ! 0) \<and>
   fst (allocBuf unpinnedA) = Inr 0 \<and>
   hashTable (snd (allocBuf unpinnedA)) (''f'', 1) = Some 0 \<and>
   valid (bufDescTable (snd (allocBuf unpinnedA)) ! 0) \<and>
   fst (readPage ''f'' 2 unpinnedA) = Inr 0 \<and>
   evictedA = snd (readPage ''f'' 2 unpinnedA) \<and>
   hashTable evictedA (''f'', 1) = Some 0 \<and>
   hashTable evictedA (''f'', 2) = Some 0 \<and>
   file' (bufDescTable evictedA ! 0) = Some ''f'' \<and>
   pageNo (bufDescTable evictedA ! 0) = 2 \<and>
   bufPool evictedA ! 0 = pageB \<and>
   fst (readPage ''f'' 1 evictedA) = Inr 0"
  unfolding evictedA_def[symmetric]
  by (simp add: evictedA_eq) (simp add: unpinnedA_eq eval_defs)

lemma readPage_miss:
  assumes "hashTable s (f, p) = None" "readPage f p s = (Inr h, s2)"
  shows "\<exists>s1 pg. allocBuf s = (Inr h, s1) \<and> disk s1 f p = Some pg \<and>
           s2 = s1\<lparr>io := io s1 @ [ReadPage f p],
                   hashTable := (hashTable s1)((f, p) \<mapsto> h),
                   bufDescTable := (bufDescTable s1)[h := Set_desc f p (bufDescTable s1 ! h)],
                   bufPool := (bufPool s1)[h := pg]\<rparr>"
  using assms
  by (auto simp: readPage_def hashTable_lookup_def hashTable_insert_def file_readPage_def
      split: prod.splits sum.splits option.splits)

lemma allocPage_ok:
  assumes "allocPage f pg s = (Inr (n, h), s2)"
  shows "\<exists>s1. allocBuf (file_allocatePage f pg s) = (Inr h, s1) \<and> n = page_number pg \<and>
           s2 = s1\<lparr>hashTable := (hashTable s1)((f, n) \<mapsto> h),
                   bufDescTable := (bufDescTable s1)[h := Set_desc f n (bufDescTable s1 ! h)],
                   bufPool := (bufPool s1)[h := pg]\<rparr>"
  using assms
  by (auto simp: allocPage_def Let_def hashTable_insert_def
      split: prod.splits sum.splits option.splits)

text \<open>
  C3. An eviction is to write a dirty victim back exactly once and then clear its dirty bit.
  \<^verbatim>\<open>allocBuf\<close> writes the victim back and returns with the bit still set. In a one-frame
  pool holding page 1 unpinned and dirty, a fetch of page 99, which the file does not have,
  writes page 1 back, fails with InvalidPage and leaves frame 0 occupied and dirty; the same
  fetch again writes the same content a second time.
\<close>

theorem allocBuf_leaves_dirty_bit:
  "valid (bufDescTable dirtyA ! 0) \<and> dirty (bufDescTable dirtyA ! 0) \<and>
   pinCnt (bufDescTable dirtyA ! 0) = 0 \<and>
   fst (allocBuf dirtyA) = Inr 0 \<and>
   io (snd (allocBuf dirtyA)) = io dirtyA @ [WritePage ''f'' pageA] \<and>
   dirty (bufDescTable (snd (allocBuf dirtyA)) ! 0) \<and>
   fst (readPage ''f'' 99 dirtyA) = Inl InvalidPage \<and>
   valid (bufDescTable (snd (readPage ''f'' 99 dirtyA)) ! 0) \<and>
   dirty (bufDescTable (snd (readPage ''f'' 99 dirtyA)) ! 0) \<and>
   bufPool (snd (readPage ''f'' 99 dirtyA)) = bufPool dirtyA \<and>
   io (snd (readPage ''f'' 99 dirtyA)) = io dirtyA @ [WritePage ''f'' pageA] \<and>
   fst (readPage ''f'' 99 (snd (readPage ''f'' 99 dirtyA))) = Inl InvalidPage \<and>
   io (snd (readPage ''f'' 99 (snd (readPage ''f'' 99 dirtyA)))) =
     io dirtyA @ [WritePage ''f'' pageA, WritePage ''f'' pageA]"
  by (simp add: dirtyA_eq eval_defs)

text \<open>
  What does hold of the write-back: when \<^verbatim>\<open>allocBuf\<close> selects an occupied frame owned by
  file \<open>g\<close>, the calls it makes to the files are exactly one \<^verbatim>\<open>writePage\<close> of the
  frame's content to \<open>g\<close> if the frame is dirty, and none if it is clean. A
  \<^verbatim>\<open>readPage\<close> miss or an \<^verbatim>\<open>allocPage\<close> that succeeds makes no other write, and
  leaves the dirty bit of the frame cleared, through \<^verbatim>\<open>Set\<close>.
\<close>

theorem eviction_write_back:
  assumes "length (bufDescTable s) = numBufs s"
  shows "(\<forall>h s1 g. allocBuf s = (Inr h, s1) \<and> valid (bufDescTable s ! h) \<and>
                   file' (bufDescTable s ! h) = Some g \<longrightarrow>
            io s1 = io s @ (if dirty (bufDescTable s ! h)
                            then [WritePage g (bufPool s ! h)] else [])) \<and>
         (\<forall>f p h s2. hashTable s (f, p) = None \<and> readPage f p s = (Inr h, s2) \<longrightarrow>
            (\<exists>s1. allocBuf s = (Inr h, s1) \<and> io s2 = io s1 @ [ReadPage f p]) \<and>
            \<not> dirty (bufDescTable s2 ! h)) \<and>
         (\<forall>f pg n h s2. allocPage f pg s = (Inr (n, h), s2) \<longrightarrow>
            (\<exists>s1. allocBuf (file_allocatePage f pg s) = (Inr h, s1) \<and> io s2 = io s1) \<and>
            \<not> dirty (bufDescTable s2 ! h))"
proof -
  have a: "io s1 = io s @ (if dirty (bufDescTable s ! h)
                            then [WritePage g (bufPool s ! h)] else [])"
    if "allocBuf s = (Inr h, s1)" "valid (bufDescTable s ! h)"
       "file' (bufDescTable s ! h) = Some g" for h s1 g
    using allocBuf_select(3)[OF that(1) assms] that(2,3) by simp
  have b: "(\<exists>s1. allocBuf s = (Inr h, s1) \<and> io s2 = io s1 @ [ReadPage f p]) \<and>
            \<not> dirty (bufDescTable s2 ! h)"
    if "hashTable s (f, p) = None" "readPage f p s = (Inr h, s2)" for f p h s2
  proof -
    from readPage_miss[OF that] obtain s1 pg where
      s1: "allocBuf s = (Inr h, s1)" and
      s2: "s2 = s1\<lparr>io := io s1 @ [ReadPage f p],
                   hashTable := (hashTable s1)((f, p) \<mapsto> h),
                   bufDescTable := (bufDescTable s1)[h := Set_desc f p (bufDescTable s1 ! h)],
                   bufPool := (bufPool s1)[h := pg]\<rparr>"
      by blast
    have "h < length (bufDescTable s1)"
      using allocBuf_select(1,4)[OF s1 assms] by simp
    then have "\<not> dirty (bufDescTable s2 ! h)" by (simp add: s2 Set_desc_def)
    moreover have "io s2 = io s1 @ [ReadPage f p]" by (simp add: s2)
    ultimately show ?thesis using s1 by blast
  qed
  have c: "(\<exists>s1. allocBuf (file_allocatePage f pg s) = (Inr h, s1) \<and> io s2 = io s1) \<and>
            \<not> dirty (bufDescTable s2 ! h)"
    if "allocPage f pg s = (Inr (n, h), s2)" for f pg n h s2
  proof -
    from allocPage_ok[OF that] obtain s1 where
      s1: "allocBuf (file_allocatePage f pg s) = (Inr h, s1)" and
      s2: "s2 = s1\<lparr>hashTable := (hashTable s1)((f, n) \<mapsto> h),
                   bufDescTable := (bufDescTable s1)[h := Set_desc f n (bufDescTable s1 ! h)],
                   bufPool := (bufPool s1)[h := pg]\<rparr>"
      by blast
    have sz: "length (bufDescTable (file_allocatePage f pg s)) = numBufs (file_allocatePage f pg s)"
      using assms by (simp add: file_allocatePage_def)
    have "h < length (bufDescTable s1)"
      using allocBuf_select(1,4)[OF s1 sz] by simp
    then have "\<not> dirty (bufDescTable s2 ! h)" by (simp add: s2 Set_desc_def)
    moreover have "io s2 = io s1" by (simp add: s2)
    ultimately show ?thesis using s1 by blast
  qed
  from a b c show ?thesis by blast
qed

theorem eviction_write_back_witness:
  "length (bufDescTable dirtyA) = numBufs dirtyA \<and>
   fst (allocBuf dirtyA) = Inr 0 \<and> valid (bufDescTable dirtyA ! 0) \<and>
   file' (bufDescTable dirtyA ! 0) = Some ''f'' \<and> dirty (bufDescTable dirtyA ! 0) \<and>
   io (snd (allocBuf dirtyA)) = io dirtyA @ [WritePage ''f'' pageA] \<and>
   hashTable dirtyA (''f'', 2) = None \<and> fst (readPage ''f'' 2 dirtyA) = Inr 0 \<and>
   \<not> dirty (bufDescTable (snd (readPage ''f'' 2 dirtyA)) ! 0) \<and>
   io (snd (readPage ''f'' 2 dirtyA)) = io dirtyA @ [WritePage ''f'' pageA, ReadPage ''f'' 2] \<and>
   length (bufDescTable unpinnedA) = numBufs unpinnedA \<and>
   fst (allocBuf unpinnedA) = Inr 0 \<and> valid (bufDescTable unpinnedA ! 0) \<and>
   file' (bufDescTable unpinnedA ! 0) = Some ''f'' \<and> \<not> dirty (bufDescTable unpinnedA ! 0) \<and>
   io (snd (allocBuf unpinnedA)) = io unpinnedA \<and>
   fst (allocPage ''f'' \<lparr>page_number = 4, contents = ''D''\<rparr> dirtyA) = Inr (4, 0) \<and>
   \<not> dirty (bufDescTable (snd (allocPage ''f'' \<lparr>page_number = 4, contents = ''D''\<rparr> dirtyA)) ! 0)"
proof -
  have d: "length (bufDescTable dirtyA) = numBufs dirtyA" by (simp add: dirtyA_eq)
  have u: "length (bufDescTable unpinnedA) = numBufs unpinnedA" by (simp add: unpinnedA_eq)
  obtain s1 where s1: "allocBuf dirtyA = (Inr 0, s1)"
    by (simp add: dirtyA_eq eval_defs)
  obtain s2 where s2: "readPage ''f'' 2 dirtyA = (Inr 0, s2)"
    by (simp add: dirtyA_eq eval_defs)
  obtain s3 where s3: "allocBuf unpinnedA = (Inr 0, s3)"
    by (simp add: unpinnedA_eq eval_defs)
  obtain s4 where s4: "allocPage ''f'' \<lparr>page_number = 4, contents = ''D''\<rparr> dirtyA = (Inr (4, 0), s4)"
    by (simp add: dirtyA_eq eval_defs)
  have facts: "valid (bufDescTable dirtyA ! 0)" "file' (bufDescTable dirtyA ! 0) = Some ''f''"
     "dirty (bufDescTable dirtyA ! 0)" "hashTable dirtyA (''f'', 2) = None"
     "bufPool dirtyA ! 0 = pageA"
     "valid (bufDescTable unpinnedA ! 0)" "file' (bufDescTable unpinnedA ! 0) = Some ''f''"
     "\<not> dirty (bufDescTable unpinnedA ! 0)"
    by (simp_all add: dirtyA_eq unpinnedA_eq)
  from eviction_write_back[OF d] eviction_write_back[OF u] s1 s2 s3 s4 facts d u
  show ?thesis by auto
qed

section \<open>readPage\<close>

lemma allocBuf_frame:
  assumes "allocBuf s = (r, s')"
  shows "numBufs s' = numBufs s" "hashTable s' = hashTable s" "bufPool s' = bufPool s"
        "map without_refbit (bufDescTable s') = map without_refbit (bufDescTable s)"
        "length (bufDescTable s') = length (bufDescTable s)"
  using allocBuf_loop_frame[of "u32 (2 * numBufs s)" s r s'] assms
  by (simp_all add: allocBuf_def)

text \<open>
  C5. A \<^verbatim>\<open>readPage\<close> that succeeds leaves the caller with one more pin on the frame of the
  page. On a hit (the directory maps the page to frame \<open>fr\<close>) the call succeeds and returns
  the handle of \<open>fr\<close>, whose reference bit is set and whose pin count is one more than
  before; the pool's content and the other descriptors are unchanged. On a miss that
  succeeds, the selected frame holds the page read from the file, is registered in the
  directory, and has pin count exactly 1; no other frame's pin count changes.
\<close>

theorem readPage_pins_once:
  assumes "length (bufDescTable s) = numBufs s" "length (bufPool s) = numBufs s"
  shows "(\<forall>fr. hashTable s (f, p) = Some fr \<and> fr < numBufs s \<longrightarrow>
            (\<exists>s'. readPage f p s = (Inr fr, s') \<and>
                  refbit (bufDescTable s' ! fr) \<and>
                  pinCnt (bufDescTable s' ! fr) = pinCnt (bufDescTable s ! fr) + 1 \<and>
                  bufPool s' = bufPool s \<and>
                  (\<forall>j. j \<noteq> fr \<longrightarrow> bufDescTable s' ! j = bufDescTable s ! j))) \<and>
         (\<forall>h s'. hashTable s (f, p) = None \<and> readPage f p s = (Inr h, s') \<longrightarrow>
            h < numBufs s \<and>
            pinCnt (bufDescTable s' ! h) = 1 \<and> valid (bufDescTable s' ! h) \<and>
            file' (bufDescTable s' ! h) = Some f \<and> pageNo (bufDescTable s' ! h) = p \<and>
            hashTable s' (f, p) = Some h \<and>
            disk s' f p = Some (bufPool s' ! h) \<and>
            (\<forall>j<numBufs s. j \<noteq> h \<longrightarrow>
               pinCnt (bufDescTable s' ! j) = pinCnt (bufDescTable s ! j)))"
proof -
  have hit: "\<exists>s'. readPage f p s = (Inr fr, s') \<and>
                  refbit (bufDescTable s' ! fr) \<and>
                  pinCnt (bufDescTable s' ! fr) = pinCnt (bufDescTable s ! fr) + 1 \<and>
                  bufPool s' = bufPool s \<and>
                  (\<forall>j. j \<noteq> fr \<longrightarrow> bufDescTable s' ! j = bufDescTable s ! j)"
    if "hashTable s (f, p) = Some fr" "fr < numBufs s" for fr
    using that assms(1) by (simp add: readPage_def hashTable_lookup_def Let_def)
  have miss: "h < numBufs s \<and>
            pinCnt (bufDescTable s' ! h) = 1 \<and> valid (bufDescTable s' ! h) \<and>
            file' (bufDescTable s' ! h) = Some f \<and> pageNo (bufDescTable s' ! h) = p \<and>
            hashTable s' (f, p) = Some h \<and>
            disk s' f p = Some (bufPool s' ! h) \<and>
            (\<forall>j<numBufs s. j \<noteq> h \<longrightarrow>
               pinCnt (bufDescTable s' ! j) = pinCnt (bufDescTable s ! j))"
    if "hashTable s (f, p) = None" "readPage f p s = (Inr h, s')" for h s'
  proof -
    from readPage_miss[OF that] obtain s1 pg where
      s1: "allocBuf s = (Inr h, s1)" and pg: "disk s1 f p = Some pg" and
      s': "s' = s1\<lparr>io := io s1 @ [ReadPage f p],
                   hashTable := (hashTable s1)((f, p) \<mapsto> h),
                   bufDescTable := (bufDescTable s1)[h := Set_desc f p (bufDescTable s1 ! h)],
                   bufPool := (bufPool s1)[h := pg]\<rparr>"
      by blast
    note fr = allocBuf_frame[OF s1]
    have h: "h < numBufs s" by (rule allocBuf_select(1)[OF s1 assms(1)])
    have l1: "h < length (bufDescTable s1)" "h < length (bufPool s1)"
      using h fr assms by simp_all
    have others: "pinCnt (bufDescTable s' ! j) = pinCnt (bufDescTable s ! j)"
      if "j < numBufs s" "j \<noteq> h" for j
    proof -
      have "j < length (bufDescTable s)" using that assms by simp
      from without_refbit_fields(2)[OF same_but_refbit_nth[OF fr(4) this]]
      show ?thesis using that by (simp add: s')
    qed
    show ?thesis using h l1 pg others by (simp add: s' Set_desc_def)
  qed
  from hit miss show ?thesis by blast
qed

theorem readPage_pins_once_witness:
  "length (bufDescTable pinnedA) = numBufs pinnedA \<and> length (bufPool pinnedA) = numBufs pinnedA \<and>
   hashTable pinnedA (''f'', 1) = Some 0 \<and> 0 < numBufs pinnedA \<and>
   fst (readPage ''f'' 1 pinnedA) = Inr 0 \<and>
   pinCnt (bufDescTable pinnedA ! 0) = 1 \<and>
   pinCnt (bufDescTable (snd (readPage ''f'' 1 pinnedA)) ! 0) = 2 \<and>
   refbit (bufDescTable (snd (readPage ''f'' 1 pinnedA)) ! 0) \<and>
   hashTable unpinnedA (''f'', 2) = None \<and>
   fst (readPage ''f'' 2 unpinnedA) = Inr 0 \<and>
   pinCnt (bufDescTable (snd (readPage ''f'' 2 unpinnedA)) ! 0) = 1 \<and>
   bufPool (snd (readPage ''f'' 2 unpinnedA)) ! 0 = pageB"
proof -
  have a: "length (bufDescTable pinnedA) = numBufs pinnedA" "length (bufPool pinnedA) = numBufs pinnedA"
    by (simp_all add: pinnedA_eq)
  have b: "length (bufDescTable unpinnedA) = numBufs unpinnedA" "length (bufPool unpinnedA) = numBufs unpinnedA"
    by (simp_all add: unpinnedA_eq)
  have c: "hashTable pinnedA (''f'', 1) = Some 0" "0 < numBufs pinnedA"
     "pinCnt (bufDescTable pinnedA ! 0) = 1" "hashTable unpinnedA (''f'', 2) = None"
    by (simp_all add: pinnedA_eq unpinnedA_eq)
  have "fst (readPage ''f'' 2 unpinnedA) = Inr 0"
    by (simp add: unpinnedA_eq eval_defs)
  then have s2: "readPage ''f'' 2 unpinnedA = (Inr 0, evictedA)"
    by (simp add: evictedA_def prod_eq_iff)
  have d: "disk evictedA ''f'' 2 = Some pageB" "bufPool evictedA ! 0 = pageB"
    by (simp_all add: evictedA_eq disk0_def)
  from readPage_pins_once[OF a, of "''f''" 1] readPage_pins_once[OF b, of "''f''" 2] a c s2 d
  show ?thesis by auto
qed

section \<open>disposePage\<close>

text \<open>
  C9. \<^verbatim>\<open>disposePage\<close> never fails. The only call it makes to the files is one
  \<^verbatim>\<open>deletePage\<close> of the page: no write-back, whether the frame is dirty or not. If the
  page is resident its frame descriptor is cleared and its directory entry removed; if it is
  not, the descriptors and the directory are unchanged.
\<close>

theorem disposePage_effect:
  "fst (disposePage f p s) = Inr () \<and>
   io (snd (disposePage f p s)) = io s @ [DeletePage f p] \<and>
   disk (snd (disposePage f p s)) = (disk s)(f := (disk s f)(p := None)) \<and>
   hashTable (snd (disposePage f p s)) = (hashTable s)((f, p) := None) \<and>
   bufPool (snd (disposePage f p s)) = bufPool s \<and>
   (\<forall>fr. hashTable s (f, p) = Some fr \<and> fr < length (bufDescTable s) \<longrightarrow>
      bufDescTable (snd (disposePage f p s)) = (bufDescTable s)[fr := clear (bufDescTable s ! fr)] \<and>
      \<not> valid (bufDescTable (snd (disposePage f p s)) ! fr) \<and>
      \<not> dirty (bufDescTable (snd (disposePage f p s)) ! fr)) \<and>
   (hashTable s (f, p) = None \<longrightarrow>
      bufDescTable (snd (disposePage f p s)) = bufDescTable s)"
  by (cases "hashTable s (f, p)")
     (auto simp: disposePage_def hashTable_lookup_def hashTable_remove_def file_deletePage_def
        Let_def clear_def)

theorem disposePage_effect_witness:
  "hashTable dirtyA (''f'', 1) = Some 0 \<and> 0 < length (bufDescTable dirtyA) \<and>
   dirty (bufDescTable dirtyA ! 0) \<and>
   fst (disposePage ''f'' 1 dirtyA) = Inr () \<and>
   io (snd (disposePage ''f'' 1 dirtyA)) = io dirtyA @ [DeletePage ''f'' 1] \<and>
   \<not> valid (bufDescTable (snd (disposePage ''f'' 1 dirtyA)) ! 0) \<and>
   hashTable (snd (disposePage ''f'' 1 dirtyA)) (''f'', 1) = None \<and>
   hashTable dirtyA (''f'', 2) = None \<and>
   fst (disposePage ''f'' 2 dirtyA) = Inr () \<and>
   io (snd (disposePage ''f'' 2 dirtyA)) = io dirtyA @ [DeletePage ''f'' 2] \<and>
   bufDescTable (snd (disposePage ''f'' 2 dirtyA)) = bufDescTable dirtyA"
proof -
  have c: "hashTable dirtyA (''f'', 1) = Some 0" "0 < length (bufDescTable dirtyA)"
     "dirty (bufDescTable dirtyA ! 0)" "hashTable dirtyA (''f'', 2) = None"
    by (simp_all add: dirtyA_eq)
  from disposePage_effect[of "''f''" 1 dirtyA] disposePage_effect[of "''f''" 2 dirtyA] c
  show ?thesis by (simp add: clear_def)
qed

text \<open>
  C10. \<^verbatim>\<open>disposePage\<close> of a resident page with pin count above 0 raises no error: the
  descriptor is cleared (pin count 0, not valid), the directory entry removed and the page
  deleted from the file. The pins are gone with it: an \<^verbatim>\<open>unPinPage\<close> of the page is then
  a no-op. \<^verbatim>\<open>flushFile\<close>, at the same frame, throws PagePinned.
\<close>

theorem disposePage_ignores_pins:
  assumes "hashTable s (f, p) = Some fr" "fr < length (bufDescTable s)"
      and "0 < pinCnt (bufDescTable s ! fr)"
  shows "fst (disposePage f p s) = Inr () \<and>
         bufDescTable (snd (disposePage f p s)) ! fr = clear (bufDescTable s ! fr) \<and>
         pinCnt (bufDescTable (snd (disposePage f p s)) ! fr) = 0 \<and>
         \<not> valid (bufDescTable (snd (disposePage f p s)) ! fr) \<and>
         hashTable (snd (disposePage f p s)) (f, p) = None \<and>
         disk (snd (disposePage f p s)) f p = None \<and>
         io (snd (disposePage f p s)) = io s @ [DeletePage f p] \<and>
         (\<forall>b. unPinPage f p b (snd (disposePage f p s)) = (Inr (), snd (disposePage f p s))) \<and>
         (file' (bufDescTable s ! fr) = Some f \<longrightarrow> fst (flushFile_frame f fr s) = Inl PagePinned)"
  using assms
  by (auto simp: disposePage_def hashTable_lookup_def hashTable_remove_def file_deletePage_def
        Let_def clear_def unPinPage_def flushFile_frame_def)

theorem disposePage_ignores_pins_witness:
  "hashTable pinnedA (''f'', 1) = Some 0 \<and> 0 < length (bufDescTable pinnedA) \<and>
   0 < pinCnt (bufDescTable pinnedA ! 0) \<and> file' (bufDescTable pinnedA ! 0) = Some ''f'' \<and>
   fst (disposePage ''f'' 1 pinnedA) = Inr () \<and>
   pinCnt (bufDescTable (snd (disposePage ''f'' 1 pinnedA)) ! 0) = 0 \<and>
   \<not> valid (bufDescTable (snd (disposePage ''f'' 1 pinnedA)) ! 0) \<and>
   disk (snd (disposePage ''f'' 1 pinnedA)) ''f'' 1 = None \<and>
   fst (flushFile_frame ''f'' 0 pinnedA) = Inl PagePinned"
proof -
  have c: "hashTable pinnedA (''f'', 1) = Some 0" "0 < length (bufDescTable pinnedA)"
     "0 < pinCnt (bufDescTable pinnedA ! 0)"
    by (simp_all add: pinnedA_eq)
  have d: "file' (bufDescTable pinnedA ! 0) = Some ''f''" by (simp add: pinnedA_eq)
  from disposePage_ignores_pins[OF c] c d show ?thesis by (simp add: clear_def)
qed

section \<open>flushFile\<close>

lemma pool3_eq:
  "pool3 =
     \<lparr>numBufs = 3, clockHand = 2,
      hashTable = [(''f'', 1) \<mapsto> 0, (''f'', 2) \<mapsto> 1, (''f'', 3) \<mapsto> 2],
      bufDescTable =
        [\<lparr>file' = Some ''f'', pageNo = 1, frameNo = 0, pinCnt = 0,
          dirty = True, valid = True, refbit = True\<rparr>,
         \<lparr>file' = Some ''f'', pageNo = 2, frameNo = 1, pinCnt = 1,
          dirty = False, valid = True, refbit = True\<rparr>,
         \<lparr>file' = Some ''f'', pageNo = 3, frameNo = 2, pinCnt = 0,
          dirty = False, valid = True, refbit = True\<rparr>],
      bufPool = [pageA, pageB, pageC], disk = disk0,
      io = [ReadPage ''f'' 1, ReadPage ''f'' 2, ReadPage ''f'' 3]\<rparr>"
  unfolding pool3_def
  apply (simp add: eval_defs)
  apply (simp add: numeral_3_eq_3 numeral_2_eq_2)
  done

lemma flushFile_frame_other:
  "file' (bufDescTable s ! i) \<noteq> Some f \<Longrightarrow> flushFile_frame f i s = (Inr (), s)"
  by (simp add: flushFile_frame_def Let_def)

lemma flushFile_frame_pinned:
  "file' (bufDescTable s ! i) = Some f \<Longrightarrow> 0 < pinCnt (bufDescTable s ! i) \<Longrightarrow>
   flushFile_frame f i s = (Inl PagePinned, s)"
  by (simp add: flushFile_frame_def Let_def)

lemma flushFile_frame_flush:
  assumes "i < length (bufDescTable s)" "file' (bufDescTable s ! i) = Some f"
      and "pinCnt (bufDescTable s ! i) = 0" "valid (bufDescTable s ! i)"
      and "hashTable s (f, pageNo (bufDescTable s ! i)) = Some x"
  shows "\<exists>s3. flushFile_frame f i s = (Inr (), s3) \<and>
           bufDescTable s3 = (bufDescTable s)[i := clear (bufDescTable s ! i)] \<and>
           hashTable s3 = (hashTable s)((f, pageNo (bufDescTable s ! i)) := None) \<and>
           io s3 = io s @ (if dirty (bufDescTable s ! i) then [WritePage f (bufPool s ! i)] else []) \<and>
           bufPool s3 = bufPool s \<and> numBufs s3 = numBufs s"
  using assms
  by (auto simp: flushFile_frame_def Let_def hashTable_remove_def desc_file_writePage_def
        file_writePage_def clear_def)

lemma flushFile_loop_pinned:
  assumes "length (bufDescTable s) = n" "i \<le> k" "k < n"
      and "file' (bufDescTable s ! k) = Some f" "0 < pinCnt (bufDescTable s ! k)"
      and "\<forall>j. i \<le> j \<and> j < k \<and> file' (bufDescTable s ! j) = Some f \<longrightarrow>
             pinCnt (bufDescTable s ! j) = 0 \<and> valid (bufDescTable s ! j) \<and>
             hashTable s (f, pageNo (bufDescTable s ! j)) = Some j"
  shows "\<exists>s'. flushFile_loop f [i..<n] s = (Inl PagePinned, s') \<and>
           length (bufDescTable s') = n \<and>
           (\<forall>j<n. bufDescTable s' ! j =
              (if i \<le> j \<and> j < k \<and> file' (bufDescTable s ! j) = Some f
               then clear (bufDescTable s ! j) else bufDescTable s ! j)) \<and>
           (\<forall>K. hashTable s' K =
              (if (\<exists>j. i \<le> j \<and> j < k \<and> file' (bufDescTable s ! j) = Some f \<and>
                       K = (f, pageNo (bufDescTable s ! j)))
               then None else hashTable s K)) \<and>
           io s' = io s @ map (\<lambda>j. WritePage f (bufPool s ! j))
                     (filter (\<lambda>j. file' (bufDescTable s ! j) = Some f \<and> dirty (bufDescTable s ! j))
                        [i..<k]) \<and>
           bufPool s' = bufPool s \<and> numBufs s' = numBufs s"
  using assms
proof (induction "k - i" arbitrary: i s)
  case 0
  then have ik: "i = k" by simp
  have "[k..<n] = k # [Suc k..<n]" using \<open>k < n\<close> by (simp add: upt_conv_Cons)
  moreover have "flushFile_frame f k s = (Inl PagePinned, s)"
    using 0 by (simp add: flushFile_frame_pinned)
  ultimately show ?case using ik 0 by auto
next
  case (Suc m)
  then have ik: "i < k" by simp
  then have "i < n" using Suc.prems by simp
  then have cons: "[i..<n] = i # [Suc i..<n]" by (simp add: upt_conv_Cons)
  have consk: "[i..<k] = i # [Suc i..<k]" using ik by (simp add: upt_conv_Cons)
  show ?case
  proof (cases "file' (bufDescTable s ! i) = Some f")
    case False
    have step: "flushFile_frame f i s = (Inr (), s)"
      using False by (rule flushFile_frame_other)
    have "\<exists>s'. flushFile_loop f [Suc i..<n] s = (Inl PagePinned, s') \<and>
           length (bufDescTable s') = n \<and>
           (\<forall>j<n. bufDescTable s' ! j =
              (if Suc i \<le> j \<and> j < k \<and> file' (bufDescTable s ! j) = Some f
               then clear (bufDescTable s ! j) else bufDescTable s ! j)) \<and>
           (\<forall>K. hashTable s' K =
              (if (\<exists>j. Suc i \<le> j \<and> j < k \<and> file' (bufDescTable s ! j) = Some f \<and>
                       K = (f, pageNo (bufDescTable s ! j)))
               then None else hashTable s K)) \<and>
           io s' = io s @ map (\<lambda>j. WritePage f (bufPool s ! j))
                     (filter (\<lambda>j. file' (bufDescTable s ! j) = Some f \<and> dirty (bufDescTable s ! j))
                        [Suc i..<k]) \<and>
           bufPool s' = bufPool s \<and> numBufs s' = numBufs s"
      by (rule Suc.hyps(1)) (use Suc.hyps(2) Suc.prems ik in auto)
    then obtain s' where
      l: "flushFile_loop f [Suc i..<n] s = (Inl PagePinned, s')" and
      len: "length (bufDescTable s') = n" and
      tbl: "\<forall>j<n. bufDescTable s' ! j =
              (if Suc i \<le> j \<and> j < k \<and> file' (bufDescTable s ! j) = Some f
               then clear (bufDescTable s ! j) else bufDescTable s ! j)" and
      hsh: "\<forall>K. hashTable s' K =
              (if (\<exists>j. Suc i \<le> j \<and> j < k \<and> file' (bufDescTable s ! j) = Some f \<and>
                       K = (f, pageNo (bufDescTable s ! j)))
               then None else hashTable s K)" and
      io: "io s' = io s @ map (\<lambda>j. WritePage f (bufPool s ! j))
                     (filter (\<lambda>j. file' (bufDescTable s ! j) = Some f \<and> dirty (bufDescTable s ! j))
                        [Suc i..<k])" and
      rest: "bufPool s' = bufPool s" "numBufs s' = numBufs s"
      by blast
    have same: "(i \<le> j \<and> j < k \<and> file' (bufDescTable s ! j) = Some f) =
                (Suc i \<le> j \<and> j < k \<and> file' (bufDescTable s ! j) = Some f)" for j
      using False by (cases "j = i") auto
    have 1: "flushFile_loop f [i..<n] s = (Inl PagePinned, s')"
      using cons step l by simp
    have 2: "\<forall>j<n. bufDescTable s' ! j =
              (if i \<le> j \<and> j < k \<and> file' (bufDescTable s ! j) = Some f
               then clear (bufDescTable s ! j) else bufDescTable s ! j)"
      using tbl by (simp add: same)
    have 3: "\<forall>K. hashTable s' K =
              (if (\<exists>j. i \<le> j \<and> j < k \<and> file' (bufDescTable s ! j) = Some f \<and>
                       K = (f, pageNo (bufDescTable s ! j)))
               then None else hashTable s K)"
    proof
      fix K
      have "(\<exists>j. i \<le> j \<and> j < k \<and> file' (bufDescTable s ! j) = Some f \<and>
                       K = (f, pageNo (bufDescTable s ! j))) =
            (\<exists>j. Suc i \<le> j \<and> j < k \<and> file' (bufDescTable s ! j) = Some f \<and>
                       K = (f, pageNo (bufDescTable s ! j)))"
        using same by metis
      then show "hashTable s' K =
              (if (\<exists>j. i \<le> j \<and> j < k \<and> file' (bufDescTable s ! j) = Some f \<and>
                       K = (f, pageNo (bufDescTable s ! j)))
               then None else hashTable s K)"
        using hsh[rule_format, of K] by simp
    qed
    have 4: "io s' = io s @ map (\<lambda>j. WritePage f (bufPool s ! j))
                     (filter (\<lambda>j. file' (bufDescTable s ! j) = Some f \<and> dirty (bufDescTable s ! j))
                        [i..<k])"
      using io False by (simp add: consk)
    from 1 len 2 3 4 rest show ?thesis by blast
  next
    case True
    from Suc.prems(6) ik True have
      lo: "pinCnt (bufDescTable s ! i) = 0" "valid (bufDescTable s ! i)"
          "hashTable s (f, pageNo (bufDescTable s ! i)) = Some i"
      by auto
    have il: "i < length (bufDescTable s)" using \<open>i < n\<close> Suc.prems(1) by simp
    from flushFile_frame_flush[OF il True lo] obtain s3 where
      step: "flushFile_frame f i s = (Inr (), s3)" and
      t3: "bufDescTable s3 = (bufDescTable s)[i := clear (bufDescTable s ! i)]" and
      h3: "hashTable s3 = (hashTable s)((f, pageNo (bufDescTable s ! i)) := None)" and
      io3: "io s3 = io s @ (if dirty (bufDescTable s ! i) then [WritePage f (bufPool s ! i)] else [])" and
      r3: "bufPool s3 = bufPool s" "numBufs s3 = numBufs s"
      by blast
    have nth3: "bufDescTable s3 ! j = bufDescTable s ! j" if "j \<noteq> i" for j
      using that by (simp add: t3)
    have nth3i: "bufDescTable s3 ! i = clear (bufDescTable s ! i)"
      using il by (simp add: t3)
    have pre3: "\<forall>j. Suc i \<le> j \<and> j < k \<and> file' (bufDescTable s3 ! j) = Some f \<longrightarrow>
             pinCnt (bufDescTable s3 ! j) = 0 \<and> valid (bufDescTable s3 ! j) \<and>
             hashTable s3 (f, pageNo (bufDescTable s3 ! j)) = Some j"
    proof (intro allI impI)
      fix j assume j: "Suc i \<le> j \<and> j < k \<and> file' (bufDescTable s3 ! j) = Some f"
      then have ji: "j \<noteq> i" by simp
      with j have "i \<le> j \<and> j < k \<and> file' (bufDescTable s ! j) = Some f"
        by (simp add: nth3)
      with Suc.prems(6) have
        p: "pinCnt (bufDescTable s ! j) = 0" "valid (bufDescTable s ! j)"
           "hashTable s (f, pageNo (bufDescTable s ! j)) = Some j"
        by auto
      have "pageNo (bufDescTable s ! j) \<noteq> pageNo (bufDescTable s ! i)"
        using p(3) lo(3) ji by auto
      then show "pinCnt (bufDescTable s3 ! j) = 0 \<and> valid (bufDescTable s3 ! j) \<and>
             hashTable s3 (f, pageNo (bufDescTable s3 ! j)) = Some j"
        using p ji by (simp add: nth3 h3)
    qed
    have "\<exists>s'. flushFile_loop f [Suc i..<n] s3 = (Inl PagePinned, s') \<and>
           length (bufDescTable s') = n \<and>
           (\<forall>j<n. bufDescTable s' ! j =
              (if Suc i \<le> j \<and> j < k \<and> file' (bufDescTable s3 ! j) = Some f
               then clear (bufDescTable s3 ! j) else bufDescTable s3 ! j)) \<and>
           (\<forall>K. hashTable s' K =
              (if (\<exists>j. Suc i \<le> j \<and> j < k \<and> file' (bufDescTable s3 ! j) = Some f \<and>
                       K = (f, pageNo (bufDescTable s3 ! j)))
               then None else hashTable s3 K)) \<and>
           io s' = io s3 @ map (\<lambda>j. WritePage f (bufPool s3 ! j))
                     (filter (\<lambda>j. file' (bufDescTable s3 ! j) = Some f \<and> dirty (bufDescTable s3 ! j))
                        [Suc i..<k]) \<and>
           bufPool s' = bufPool s3 \<and> numBufs s' = numBufs s3"
    proof (rule Suc.hyps(1))
      show "m = k - Suc i" using Suc.hyps(2) by simp
      show "length (bufDescTable s3) = n" using Suc.prems(1) by (simp add: t3)
      show "Suc i \<le> k" using ik by simp
      show "k < n" by (rule Suc.prems(3))
      show "file' (bufDescTable s3 ! k) = Some f" using ik Suc.prems(4) by (simp add: nth3)
      show "0 < pinCnt (bufDescTable s3 ! k)" using ik Suc.prems(5) by (simp add: nth3)
      show "\<forall>j. Suc i \<le> j \<and> j < k \<and> file' (bufDescTable s3 ! j) = Some f \<longrightarrow>
             pinCnt (bufDescTable s3 ! j) = 0 \<and> valid (bufDescTable s3 ! j) \<and>
             hashTable s3 (f, pageNo (bufDescTable s3 ! j)) = Some j"
        by (rule pre3)
    qed
    then obtain s' where
      l: "flushFile_loop f [Suc i..<n] s3 = (Inl PagePinned, s')" and
      len: "length (bufDescTable s') = n" and
      tbl: "\<forall>j<n. bufDescTable s' ! j =
              (if Suc i \<le> j \<and> j < k \<and> file' (bufDescTable s3 ! j) = Some f
               then clear (bufDescTable s3 ! j) else bufDescTable s3 ! j)" and
      hsh: "\<forall>K. hashTable s' K =
              (if (\<exists>j. Suc i \<le> j \<and> j < k \<and> file' (bufDescTable s3 ! j) = Some f \<and>
                       K = (f, pageNo (bufDescTable s3 ! j)))
               then None else hashTable s3 K)" and
      io: "io s' = io s3 @ map (\<lambda>j. WritePage f (bufPool s3 ! j))
                     (filter (\<lambda>j. file' (bufDescTable s3 ! j) = Some f \<and> dirty (bufDescTable s3 ! j))
                        [Suc i..<k])" and
      rest: "bufPool s' = bufPool s3" "numBufs s' = numBufs s3"
      by blast
    have 1: "flushFile_loop f [i..<n] s = (Inl PagePinned, s')"
      using cons step l by simp
    have 2: "\<forall>j<n. bufDescTable s' ! j =
              (if i \<le> j \<and> j < k \<and> file' (bufDescTable s ! j) = Some f
               then clear (bufDescTable s ! j) else bufDescTable s ! j)"
    proof (intro allI impI)
      fix j assume jn: "j < n"
      show "bufDescTable s' ! j =
              (if i \<le> j \<and> j < k \<and> file' (bufDescTable s ! j) = Some f
               then clear (bufDescTable s ! j) else bufDescTable s ! j)"
      proof (cases "j = i")
        case True
        then show ?thesis using tbl jn nth3i ik \<open>file' (bufDescTable s ! i) = Some f\<close> by simp
      next
        case False
        then have "(i \<le> j) = (Suc i \<le> j)" by auto
        then show ?thesis using tbl jn False by (simp add: nth3)
      qed
    qed
    have ex: "(\<exists>j. i \<le> j \<and> j < k \<and> file' (bufDescTable s ! j) = Some f \<and>
                       K = (f, pageNo (bufDescTable s ! j))) =
              (K = (f, pageNo (bufDescTable s ! i)) \<or>
               (\<exists>j. Suc i \<le> j \<and> j < k \<and> file' (bufDescTable s3 ! j) = Some f \<and>
                       K = (f, pageNo (bufDescTable s3 ! j))))" for K
    proof
      assume "\<exists>j. i \<le> j \<and> j < k \<and> file' (bufDescTable s ! j) = Some f \<and>
                       K = (f, pageNo (bufDescTable s ! j))"
      then obtain j where j: "i \<le> j" "j < k" "file' (bufDescTable s ! j) = Some f"
        "K = (f, pageNo (bufDescTable s ! j))" by blast
      show "K = (f, pageNo (bufDescTable s ! i)) \<or>
               (\<exists>j. Suc i \<le> j \<and> j < k \<and> file' (bufDescTable s3 ! j) = Some f \<and>
                       K = (f, pageNo (bufDescTable s3 ! j)))"
      proof (cases "j = i")
        case True
        then show ?thesis using j by simp
      next
        case False
        then have "Suc i \<le> j \<and> j < k \<and> file' (bufDescTable s3 ! j) = Some f \<and>
                       K = (f, pageNo (bufDescTable s3 ! j))"
          using j by (simp add: nth3)
        then show ?thesis by blast
      qed
    next
      assume "K = (f, pageNo (bufDescTable s ! i)) \<or>
               (\<exists>j. Suc i \<le> j \<and> j < k \<and> file' (bufDescTable s3 ! j) = Some f \<and>
                       K = (f, pageNo (bufDescTable s3 ! j)))"
      then show "\<exists>j. i \<le> j \<and> j < k \<and> file' (bufDescTable s ! j) = Some f \<and>
                       K = (f, pageNo (bufDescTable s ! j))"
      proof
        assume "K = (f, pageNo (bufDescTable s ! i))"
        then show ?thesis using ik True by auto
      next
        assume "\<exists>j. Suc i \<le> j \<and> j < k \<and> file' (bufDescTable s3 ! j) = Some f \<and>
                       K = (f, pageNo (bufDescTable s3 ! j))"
        then obtain j where j: "Suc i \<le> j" "j < k" "file' (bufDescTable s3 ! j) = Some f"
          "K = (f, pageNo (bufDescTable s3 ! j))" by blast
        then have "j \<noteq> i" by simp
        then have "i \<le> j \<and> j < k \<and> file' (bufDescTable s ! j) = Some f \<and>
                       K = (f, pageNo (bufDescTable s ! j))"
          using j by (simp add: nth3)
        then show ?thesis by blast
      qed
    qed
    have 3: "\<forall>K. hashTable s' K =
              (if (\<exists>j. i \<le> j \<and> j < k \<and> file' (bufDescTable s ! j) = Some f \<and>
                       K = (f, pageNo (bufDescTable s ! j)))
               then None else hashTable s K)"
    proof
      fix K
      show "hashTable s' K =
              (if (\<exists>j. i \<le> j \<and> j < k \<and> file' (bufDescTable s ! j) = Some f \<and>
                       K = (f, pageNo (bufDescTable s ! j)))
               then None else hashTable s K)"
      proof -
        define E where "E = (\<exists>j. i \<le> j \<and> j < k \<and> file' (bufDescTable s ! j) = Some f \<and>
                       K = (f, pageNo (bufDescTable s ! j)))"
        define E3 where "E3 = (\<exists>j. Suc i \<le> j \<and> j < k \<and> file' (bufDescTable s3 ! j) = Some f \<and>
                       K = (f, pageNo (bufDescTable s3 ! j)))"
        have hk: "hashTable s' K = (if E3 then None else hashTable s3 K)"
          unfolding E3_def using hsh by blast
        have e: "E = (K = (f, pageNo (bufDescTable s ! i)) \<or> E3)"
          unfolding E_def E3_def by (rule ex)
        have "hashTable s' K = (if E then None else hashTable s K)"
        proof (cases "K = (f, pageNo (bufDescTable s ! i))")
          case True
          have "hashTable s3 K = None" using True by (simp add: h3)
          then have "hashTable s' K = None" using hk by (cases E3) simp_all
          moreover have E using e True by simp
          ultimately show ?thesis by simp
        next
          case False
          have "hashTable s3 K = hashTable s K" using False by (simp add: h3)
          moreover have "E = E3" using e False by simp
          ultimately show ?thesis using hk by simp
        qed
        then show ?thesis unfolding E_def .
      qed
    qed
    have flt: "filter (\<lambda>j. file' (bufDescTable s3 ! j) = Some f \<and> dirty (bufDescTable s3 ! j)) [Suc i..<k]
             = filter (\<lambda>j. file' (bufDescTable s ! j) = Some f \<and> dirty (bufDescTable s ! j)) [Suc i..<k]"
      by (rule filter_cong) (auto simp: nth3)
    have 4: "io s' = io s @ map (\<lambda>j. WritePage f (bufPool s ! j))
                     (filter (\<lambda>j. file' (bufDescTable s ! j) = Some f \<and> dirty (bufDescTable s ! j))
                        [i..<k])"
      using io io3 True by (simp add: consk flt r3)
    from 1 len 2 3 4 rest r3 show ?thesis by auto
  qed
qed

text \<open>
  C8. Let frame \<open>k\<close> be the first frame of file \<open>f\<close> with pin count above 0, the frames of
  \<open>f\<close> below it being occupied and registered in the directory under their own page. Then
  \<^verbatim>\<open>flushFile\<close> throws PagePinned, and in the state it leaves behind: every frame of \<open>f\<close>
  below \<open>k\<close> is cleared and its directory entry removed; the writes made are those of the
  dirty ones among them, in ascending order; frame \<open>k\<close>, all later frames and the frames of
  other files are untouched, as are all other directory entries (those of the later frames
  of \<open>f\<close> among them) and the pool's content.
\<close>

theorem flushFile_pinned:
  assumes "length (bufDescTable s) = numBufs s" "k < numBufs s"
      and "file' (bufDescTable s ! k) = Some f" "0 < pinCnt (bufDescTable s ! k)"
      and "\<forall>j<k. file' (bufDescTable s ! j) = Some f \<longrightarrow>
             pinCnt (bufDescTable s ! j) = 0 \<and> valid (bufDescTable s ! j) \<and>
             hashTable s (f, pageNo (bufDescTable s ! j)) = Some j"
  shows "fst (flushFile f s) = Inl PagePinned \<and>
         (\<forall>j<k. file' (bufDescTable s ! j) = Some f \<longrightarrow>
            bufDescTable (snd (flushFile f s)) ! j = clear (bufDescTable s ! j) \<and>
            hashTable (snd (flushFile f s)) (f, pageNo (bufDescTable s ! j)) = None) \<and>
         io (snd (flushFile f s)) =
           io s @ map (\<lambda>j. WritePage f (bufPool s ! j))
                    (filter (\<lambda>j. file' (bufDescTable s ! j) = Some f \<and> dirty (bufDescTable s ! j))
                       [0..<k]) \<and>
         (\<forall>j<numBufs s. k \<le> j \<or> file' (bufDescTable s ! j) \<noteq> Some f \<longrightarrow>
            bufDescTable (snd (flushFile f s)) ! j = bufDescTable s ! j) \<and>
         (\<forall>K. (\<forall>j<k. file' (bufDescTable s ! j) = Some f \<longrightarrow>
                        K \<noteq> (f, pageNo (bufDescTable s ! j))) \<longrightarrow>
            hashTable (snd (flushFile f s)) K = hashTable s K) \<and>
         (\<forall>j<numBufs s. k \<le> j \<and> hashTable s (f, pageNo (bufDescTable s ! j)) = Some j \<longrightarrow>
            hashTable (snd (flushFile f s)) (f, pageNo (bufDescTable s ! j)) = Some j) \<and>
         bufPool (snd (flushFile f s)) = bufPool s"
proof -
  have pre: "\<forall>j. 0 \<le> j \<and> j < k \<and> file' (bufDescTable s ! j) = Some f \<longrightarrow>
             pinCnt (bufDescTable s ! j) = 0 \<and> valid (bufDescTable s ! j) \<and>
             hashTable s (f, pageNo (bufDescTable s ! j)) = Some j"
    using assms(5) by simp
  from flushFile_loop_pinned[OF assms(1) _ assms(2,3,4) pre]
  obtain s' where
    l: "flushFile_loop f [0..<numBufs s] s = (Inl PagePinned, s')" and
    tbl: "\<forall>j<numBufs s. bufDescTable s' ! j =
              (if 0 \<le> j \<and> j < k \<and> file' (bufDescTable s ! j) = Some f
               then clear (bufDescTable s ! j) else bufDescTable s ! j)" and
    hsh: "\<forall>K. hashTable s' K =
              (if (\<exists>j. 0 \<le> j \<and> j < k \<and> file' (bufDescTable s ! j) = Some f \<and>
                       K = (f, pageNo (bufDescTable s ! j)))
               then None else hashTable s K)" and
    io: "io s' = io s @ map (\<lambda>j. WritePage f (bufPool s ! j))
                     (filter (\<lambda>j. file' (bufDescTable s ! j) = Some f \<and> dirty (bufDescTable s ! j))
                        [0..<k])" and
    pool: "bufPool s' = bufPool s"
    by blast
  have r: "flushFile f s = (Inl PagePinned, s')" using l by (simp add: flushFile_def)
  have 1: "bufDescTable s' ! j = clear (bufDescTable s ! j) \<and>
           hashTable s' (f, pageNo (bufDescTable s ! j)) = None"
    if "j < k" "file' (bufDescTable s ! j) = Some f" for j
  proof -
    have "j < numBufs s" using that(1) assms(2) by simp
    then have "bufDescTable s' ! j = clear (bufDescTable s ! j)" using tbl that by simp
    moreover have "\<exists>j'. 0 \<le> j' \<and> j' < k \<and> file' (bufDescTable s ! j') = Some f \<and>
          (f, pageNo (bufDescTable s ! j)) = (f, pageNo (bufDescTable s ! j'))"
      using that by blast
    then have "hashTable s' (f, pageNo (bufDescTable s ! j)) = None"
      using hsh[rule_format, of "(f, pageNo (bufDescTable s ! j))"] by (simp only: if_True)
    ultimately show ?thesis by simp
  qed
  have 2: "bufDescTable s' ! j = bufDescTable s ! j"
    if "j < numBufs s" "k \<le> j \<or> file' (bufDescTable s ! j) \<noteq> Some f" for j
    using tbl that by auto
  have 3: "hashTable s' K = hashTable s K"
    if "\<forall>j<k. file' (bufDescTable s ! j) = Some f \<longrightarrow> K \<noteq> (f, pageNo (bufDescTable s ! j))" for K
  proof -
    have "\<not> (\<exists>j. 0 \<le> j \<and> j < k \<and> file' (bufDescTable s ! j) = Some f \<and>
                       K = (f, pageNo (bufDescTable s ! j)))"
      using that by blast
    then show ?thesis using hsh[rule_format, of K] by (simp only: if_False)
  qed
  have 4: "hashTable s' (f, pageNo (bufDescTable s ! j)) = Some j"
    if "j < numBufs s" "k \<le> j" "hashTable s (f, pageNo (bufDescTable s ! j)) = Some j" for j
  proof -
    have "\<forall>j'<k. file' (bufDescTable s ! j') = Some f \<longrightarrow>
            (f, pageNo (bufDescTable s ! j)) \<noteq> (f, pageNo (bufDescTable s ! j'))"
    proof (intro allI impI notI)
      fix j' assume j': "j' < k" "file' (bufDescTable s ! j') = Some f"
        and e: "(f, pageNo (bufDescTable s ! j)) = (f, pageNo (bufDescTable s ! j'))"
      from assms(5) j' have "hashTable s (f, pageNo (bufDescTable s ! j')) = Some j'" by simp
      with e that(3) have "j = j'" by (metis option.inject prod.inject)
      with j' that(2) show False by simp
    qed
    from 3[OF this] that(3) show ?thesis by simp
  qed
  have c1: "\<forall>j<k. file' (bufDescTable s ! j) = Some f \<longrightarrow>
            bufDescTable s' ! j = clear (bufDescTable s ! j) \<and>
            hashTable s' (f, pageNo (bufDescTable s ! j)) = None"
    using 1 by blast
  have c2: "\<forall>j<numBufs s. k \<le> j \<or> file' (bufDescTable s ! j) \<noteq> Some f \<longrightarrow>
            bufDescTable s' ! j = bufDescTable s ! j"
    using 2 by blast
  have c3: "\<forall>K. (\<forall>j<k. file' (bufDescTable s ! j) = Some f \<longrightarrow>
                        K \<noteq> (f, pageNo (bufDescTable s ! j))) \<longrightarrow>
            hashTable s' K = hashTable s K"
    using 3 by blast
  have c4: "\<forall>j<numBufs s. k \<le> j \<and> hashTable s (f, pageNo (bufDescTable s ! j)) = Some j \<longrightarrow>
            hashTable s' (f, pageNo (bufDescTable s ! j)) = Some j"
    using 4 by blast
  show ?thesis unfolding r fst_conv snd_conv
    by (intro conjI refl c1 io c2 c3 c4 pool)
qed

theorem flushFile_pinned_witness:
  "length (bufDescTable pool3) = numBufs pool3 \<and> 1 < numBufs pool3 \<and>
   file' (bufDescTable pool3 ! 1) = Some ''f'' \<and> 0 < pinCnt (bufDescTable pool3 ! 1) \<and>
   file' (bufDescTable pool3 ! 0) = Some ''f'' \<and> pinCnt (bufDescTable pool3 ! 0) = 0 \<and>
   valid (bufDescTable pool3 ! 0) \<and> dirty (bufDescTable pool3 ! 0) \<and>
   hashTable pool3 (''f'', pageNo (bufDescTable pool3 ! 0)) = Some 0 \<and>
   fst (flushFile ''f'' pool3) = Inl PagePinned \<and>
   \<not> valid (bufDescTable (snd (flushFile ''f'' pool3)) ! 0) \<and>
   hashTable (snd (flushFile ''f'' pool3)) (''f'', 1) = None \<and>
   io (snd (flushFile ''f'' pool3)) = io pool3 @ [WritePage ''f'' pageA] \<and>
   bufDescTable (snd (flushFile ''f'' pool3)) ! 1 = bufDescTable pool3 ! 1 \<and>
   bufDescTable (snd (flushFile ''f'' pool3)) ! 2 = bufDescTable pool3 ! 2 \<and>
   hashTable (snd (flushFile ''f'' pool3)) (''f'', 3) = Some 2"
proof -
  have h: "length (bufDescTable pool3) = numBufs pool3" "1 < numBufs pool3"
    "file' (bufDescTable pool3 ! 1) = Some ''f''" "0 < pinCnt (bufDescTable pool3 ! 1)"
    by (simp_all add: pool3_eq)
  have lo: "\<forall>j<1. file' (bufDescTable pool3 ! j) = Some ''f'' \<longrightarrow>
             pinCnt (bufDescTable pool3 ! j) = 0 \<and> valid (bufDescTable pool3 ! j) \<and>
             hashTable pool3 (''f'', pageNo (bufDescTable pool3 ! j)) = Some j"
    by (simp add: pool3_eq)
  have c: "file' (bufDescTable pool3 ! 0) = Some ''f''" "pinCnt (bufDescTable pool3 ! 0) = 0"
    "valid (bufDescTable pool3 ! 0)" "dirty (bufDescTable pool3 ! 0)"
    "hashTable pool3 (''f'', pageNo (bufDescTable pool3 ! 0)) = Some 0"
    "pageNo (bufDescTable pool3 ! 0) = 1" "pageNo (bufDescTable pool3 ! 2) = 3"
    "hashTable pool3 (''f'', 3) = Some 2" "numBufs pool3 = 3" "bufPool pool3 ! 0 = pageA"
    by (simp_all add: pool3_eq)
  note t = flushFile_pinned[OF h lo]
  have t1: "fst (flushFile ''f'' pool3) = Inl PagePinned" using t by blast
  have t2: "bufDescTable (snd (flushFile ''f'' pool3)) ! 0 = clear (bufDescTable pool3 ! 0)"
    "hashTable (snd (flushFile ''f'' pool3)) (''f'', 1) = None"
    using t c by auto
  have t3: "io (snd (flushFile ''f'' pool3)) = io pool3 @ [WritePage ''f'' pageA]"
    using t c by simp
  have t4: "bufDescTable (snd (flushFile ''f'' pool3)) ! 1 = bufDescTable pool3 ! 1"
    "bufDescTable (snd (flushFile ''f'' pool3)) ! 2 = bufDescTable pool3 ! 2"
    using t c(9) by auto
  have "hashTable (snd (flushFile ''f'' pool3)) (''f'', pageNo (bufDescTable pool3 ! 2)) = Some 2"
    using t c by auto
  then have t5: "hashTable (snd (flushFile ''f'' pool3)) (''f'', 3) = Some 2" using c by simp
  from h c t1 t2 t3 t4 t5 show ?thesis by (simp add: clear_def)
qed

section \<open>The unbounded draft of the sweep\<close>

text \<open>
  On a pool whose frames are all occupied and pinned the \<^verbatim>\<open>while(true)\<close> draft never
  returns; the bounded loop is what makes \<^verbatim>\<open>allocBuf\<close> throw instead.
\<close>

lemma allocBuf_visit_keeps_pinned:
  assumes "length (bufDescTable s) = numBufs s" "0 < numBufs s"
      and "\<forall>i<numBufs s. valid (bufDescTable s ! i) \<and> 0 < pinCnt (bufDescTable s ! i)"
      and "allocBuf_visit s = (r, s1)"
  shows "r = None" "length (bufDescTable s1) = numBufs s1" "0 < numBufs s1"
        "\<forall>i<numBufs s1. valid (bufDescTable s1 ! i) \<and> 0 < pinCnt (bufDescTable s1 ! i)"
proof -
  note fr = allocBuf_visit_frame[OF assms(4)]
  show "r = None" using allocBuf_visit_all_pinned[OF assms(1,2,3)] assms(4) by simp
  show "length (bufDescTable s1) = numBufs s1" "0 < numBufs s1" using fr assms by simp_all
  show "\<forall>i<numBufs s1. valid (bufDescTable s1 ! i) \<and> 0 < pinCnt (bufDescTable s1 ! i)"
  proof (intro allI impI)
    fix i assume "i < numBufs s1"
    then have i: "i < length (bufDescTable s)" using fr assms by simp
    note eqs = without_refbit_fields[OF same_but_refbit_nth[OF fr(4) i]]
    show "valid (bufDescTable s1 ! i) \<and> 0 < pinCnt (bufDescTable s1 ! i)"
      using eqs assms(3) i assms(1) by simp
  qed
qed

lemma allocBuf_draft_returns:
  assumes "allocBuf_draft s = Some y"
  shows "\<not> (length (bufDescTable s) = numBufs s \<and> 0 < numBufs s \<and>
            (\<forall>i<numBufs s. valid (bufDescTable s ! i) \<and> 0 < pinCnt (bufDescTable s ! i)))"
proof (rule allocBuf_draft.raw_induct
    [where P = "\<lambda>s y. \<not> (length (bufDescTable s) = numBufs s \<and> 0 < numBufs s \<and>
            (\<forall>i<numBufs s. valid (bufDescTable s ! i) \<and> 0 < pinCnt (bufDescTable s ! i)))",
     OF _ assms])
  fix rec :: "BufMgr \<Rightarrow> (FrameId \<times> BufMgr) option" and s y
  assume IH: "\<And>x y. rec x = Some y \<Longrightarrow>
            \<not> (length (bufDescTable x) = numBufs x \<and> 0 < numBufs x \<and>
            (\<forall>i<numBufs x. valid (bufDescTable x ! i) \<and> 0 < pinCnt (bufDescTable x ! i)))"
    and st: "(case allocBuf_visit s of
                (Some frame, s') \<Rightarrow> Some (frame, s')
              | (None, s') \<Rightarrow> rec s') = Some y"
  show "\<not> (length (bufDescTable s) = numBufs s \<and> 0 < numBufs s \<and>
            (\<forall>i<numBufs s. valid (bufDescTable s ! i) \<and> 0 < pinCnt (bufDescTable s ! i)))"
  proof
    assume inv: "length (bufDescTable s) = numBufs s \<and> 0 < numBufs s \<and>
            (\<forall>i<numBufs s. valid (bufDescTable s ! i) \<and> 0 < pinCnt (bufDescTable s ! i))"
    obtain r s1 where v: "allocBuf_visit s = (r, s1)" by (cases "allocBuf_visit s")
    from inv have a: "length (bufDescTable s) = numBufs s" "0 < numBufs s"
      "\<forall>i<numBufs s. valid (bufDescTable s ! i) \<and> 0 < pinCnt (bufDescTable s ! i)"
      by simp_all
    note k = allocBuf_visit_keeps_pinned[OF a v]
    from st v k(1) have "rec s1 = Some y" by simp
    from IH[OF this] k(2,3,4) show False by simp
  qed
qed

lemma allocBuf_draft_diverges:
  assumes "length (bufDescTable s) = numBufs s" "0 < numBufs s"
      and "\<forall>i<numBufs s. valid (bufDescTable s ! i) \<and> 0 < pinCnt (bufDescTable s ! i)"
  shows "allocBuf_draft s = None"
proof (cases "allocBuf_draft s")
  case None
  then show ?thesis .
next
  case (Some y)
  from allocBuf_draft_returns[OF this] assms show ?thesis by simp
qed

end
